theory Spec2Isabelle
  imports Main "HOL-Library.Product_Lexorder" "HOL-Library.Word"
begin

section \<open>The worker pool (task_scheduler/scheduler_worker_pool_impl.cc)\<close>

text \<open>
  A worker object is identified by a number (its address in the C++ code). The pool is taken
  at the granularity of its critical sections: the member functions below read and write
  the pool under \<open>lock_\<close>, so an execution of the pool is a sequence of calls.
  \<open>GetWork\<close> takes the lock twice, first to look at the idle flag of its worker and then,
  inside the transaction of the queue, to go idle; in between it neither reads nor writes the
  pool, and nobody else touches a worker that is not idle, so it is one step.
  \<open>ScheduleSequence\<close> is a push followed by \<open>WakeUpOneWorker\<close>; what other threads do
  between the two is the execution \<open>ReEnqueueSequence\<close> (the same push), their calls,
  \<open>WakeUpOneWorker\<close>.

  What ends the process is the \<open>Inl\<close> branch of a result: a failed \<open>CHECK\<close> or
  \<open>DCHECK\<close>, the \<open>length_error\<close> that \<open>std::vector::reserve\<close> throws and nobody
  catches, and the overflow of a signed addition, after which C++ promises nothing.
  Running out of memory is left out.
\<close>

type_synonym SchedulerWorker = nat
type_synonym TimeTicks = int

datatype fatal = CHECK_failed | DCHECK_failed | length_error | signed_overflow

subsection \<open>Collaborators declared outside the translated file\<close>

type_synonym SequenceSortKey = "nat \<times> nat"

text \<open>
  Modelled from the spec: the class Sequence is not part of the translated sources. The spec
  gives it a sort key, a pair of a priority (lower value first) and a sequence number; the
  \<open>token\<close> tells two sequences apart.
\<close>

record Sequence =
  GetSortKey :: SequenceSortKey
  token :: nat

text \<open>
  Modelled from the spec: the class PriorityQueue is not part of the translated sources. The
  spec describes entries \<open>(sort key, sequence)\<close> totally ordered by sort key, \<open>Push\<close>,
  \<open>PopSequence\<close> returning the minimum (empty if there is none) and \<open>IsEmpty\<close>. The queue is
  the list of its entries in pop order; an entry is put behind the entries whose key is not
  larger (first in, first out among equal keys).
\<close>

type_synonym PriorityQueue = "(SequenceSortKey \<times> Sequence) list"

fun PriorityQueue_insert ::
  "SequenceSortKey \<times> Sequence \<Rightarrow> PriorityQueue \<Rightarrow> PriorityQueue" where
  "PriorityQueue_insert e [] = [e]"
| "PriorityQueue_insert e (x # xs) =
     (if fst e < fst x then e # x # xs else x # PriorityQueue_insert e xs)"

definition PriorityQueue_Push ::
  "Sequence \<Rightarrow> SequenceSortKey \<Rightarrow> PriorityQueue \<Rightarrow> PriorityQueue" where
  "PriorityQueue_Push sequence sequence_sort_key q =
     PriorityQueue_insert (sequence_sort_key, sequence) q"

definition PriorityQueue_IsEmpty :: "PriorityQueue \<Rightarrow> bool" where
  "PriorityQueue_IsEmpty q = (q = [])"

definition PriorityQueue_PopSequence :: "PriorityQueue \<Rightarrow> Sequence option \<times> PriorityQueue" where
  "PriorityQueue_PopSequence q =
     (case q of [] \<Rightarrow> (None, []) | e # r \<Rightarrow> (Some (snd e), r))"

text \<open>
  Modelled from the spec: the class SchedulerWorkerStack (the idle workers stack) is not part
  of the translated sources. The spec gives it last-in first-out order and the operations
  \<open>Push\<close>, \<open>Pop\<close> (fails if empty), \<open>Peek\<close> (non-destructive), \<open>Contains\<close>, \<open>Remove\<close> (out of
  order) and \<open>Size\<close>; inserting a worker twice is a fatal invariant violation. The stack is a
  list whose head is the top; \<open>Pop\<close> and \<open>Peek\<close> of the empty stack give no worker.
\<close>

type_synonym SchedulerWorkerStack = "SchedulerWorker list"

definition SchedulerWorkerStack_Contains :: "SchedulerWorkerStack \<Rightarrow> SchedulerWorker \<Rightarrow> bool" where
  "SchedulerWorkerStack_Contains st worker = (worker \<in> set st)"

definition SchedulerWorkerStack_Push ::
  "SchedulerWorker \<Rightarrow> SchedulerWorkerStack \<Rightarrow> fatal + SchedulerWorkerStack" where
  "SchedulerWorkerStack_Push worker st =
     (if SchedulerWorkerStack_Contains st worker then Inl DCHECK_failed else Inr (worker # st))"

definition SchedulerWorkerStack_Pop ::
  "SchedulerWorkerStack \<Rightarrow> SchedulerWorker option \<times> SchedulerWorkerStack" where
  "SchedulerWorkerStack_Pop st = (case st of [] \<Rightarrow> (None, []) | w # r \<Rightarrow> (Some w, r))"

definition SchedulerWorkerStack_Peek :: "SchedulerWorkerStack \<Rightarrow> SchedulerWorker option" where
  "SchedulerWorkerStack_Peek st = (case st of [] \<Rightarrow> None | w # r \<Rightarrow> Some w)"

definition SchedulerWorkerStack_Remove ::
  "SchedulerWorker \<Rightarrow> SchedulerWorkerStack \<Rightarrow> SchedulerWorkerStack" where
  "SchedulerWorkerStack_Remove worker st = remove1 worker st"

definition SchedulerWorkerStack_Size :: "SchedulerWorkerStack \<Rightarrow> nat" where
  "SchedulerWorkerStack_Size st = length st"

definition SchedulerWorkerStack_IsEmpty :: "SchedulerWorkerStack \<Rightarrow> bool" where
  "SchedulerWorkerStack_IsEmpty st = (st = [])"

subsection \<open>State\<close>

text \<open>
  The members of \<open>SchedulerWorkerDelegateImpl\<close>; a delegate is constructed with
  \<open>is_on_idle_workers_stack_ = true\<close> and both counters zero. (Isabelle does not accept a
  name that ends in an underscore, so the members lose theirs.)
\<close>

record SchedulerWorkerDelegateImpl =
  num_tasks_since_last_wait :: nat
  num_tasks_since_last_detach :: nat
  is_on_idle_workers_stack :: bool

definition new_delegate :: SchedulerWorkerDelegateImpl where
  "new_delegate =
     \<lparr>num_tasks_since_last_wait = 0, num_tasks_since_last_detach = 0,
      is_on_idle_workers_stack = True\<rparr>"

text \<open>
  The members of \<open>SchedulerWorkerPoolImpl\<close> that the member functions read or write,
  followed by what the pool does to the objects around it: \<open>delegate\<close> holds the delegate
  of every worker object, \<open>next_worker\<close> is the object the next \<open>MakeRefCounted\<close> returns,
  \<open>woken\<close> and \<open>cleaned_up\<close> record the calls of \<open>SchedulerWorker::WakeUp\<close> and
  \<open>SchedulerWorker::Cleanup\<close>, \<open>broadcasts\<close> counts the calls of
  \<open>idle_workers_stack_cv_for_testing_->Broadcast\<close>, and \<open>clock\<close> is what
  \<open>TimeTicks::Now\<close> returns. The three histograms are objects of the metrics library
  that the pool points to; their fields hold the samples they were given.
  \<open>num_wake_ups_before_start_\<close> is a C++ \<open>int\<close>; the field is an integer, and
  \<open>Start\<close>, which computes with it, checks that the sum fits an \<open>int\<close>.
\<close>

record SchedulerWorkerPoolImpl =
  workers :: "SchedulerWorker list"
  idle_workers_stack :: SchedulerWorkerStack
  worker_capacity :: nat
  num_wake_ups_before_start :: int
  suggested_reclaim_time :: int
  backward_compatibility :: bool
  shared_priority_queue :: PriorityQueue
  worker_cleanup_disallowed :: bool
  cleanup_timestamps :: "TimeTicks list"
  detach_duration_histogram :: "int list"
  num_tasks_before_detach_histogram :: "nat list"
  num_tasks_between_waits_histogram :: "nat list"
  delegate :: "SchedulerWorker \<Rightarrow> SchedulerWorkerDelegateImpl"
  next_worker :: SchedulerWorker
  woken :: "SchedulerWorker list"
  cleaned_up :: "SchedulerWorker list"
  broadcasts :: nat
  clock :: TimeTicks

text \<open>The pool as its constructor leaves it.\<close>

definition new_pool :: SchedulerWorkerPoolImpl where
  "new_pool =
     \<lparr>workers = [], idle_workers_stack = [], worker_capacity = 0,
      num_wake_ups_before_start = 0, suggested_reclaim_time = 0,
      backward_compatibility = False, shared_priority_queue = [],
      worker_cleanup_disallowed = False, cleanup_timestamps = [],
      detach_duration_histogram = [], num_tasks_before_detach_histogram = [],
      num_tasks_between_waits_histogram = [], delegate = (\<lambda>w. new_delegate),
      next_worker = 0, woken = [], cleaned_up = [], broadcasts = 0, clock = 0\<rparr>"

record SchedulerWorkerPoolParams =
  max_threads :: int
  params_suggested_reclaim_time :: int
  params_backward_compatibility :: bool

text \<open>
  \<open>max_threads()\<close> is a C++ \<open>int\<close>, \<open>worker_capacity_\<close> a \<open>size_t\<close>: the assignment
  converts modulo \<open>2 ^ 64\<close>, and \<open>static_cast<int>\<close> takes the low 32 bits as a signed
  number.
\<close>

definition size_t_of_int :: "int \<Rightarrow> nat" where
  "size_t_of_int i = nat (i mod 2 ^ 64)"

definition static_cast_int :: "nat \<Rightarrow> int" where
  "static_cast_int n =
     (let r = int n mod 2 ^ 32 in if r < 2 ^ 31 then r else r - 2 ^ 32)"

definition INT_MAX :: int where
  "INT_MAX = 2 ^ 31 - 1"

text \<open>
  \<open>workers_\<close> is a \<open>std::vector\<close> of pointers (8 bytes each). Its \<open>reserve\<close> takes a
  \<open>size_t\<close> and throws \<open>length_error\<close> for a count above \<open>max_size()\<close>, the largest
  \<open>ptrdiff_t\<close> divided by the size of an element.
\<close>

definition vector_max_size :: nat where
  "vector_max_size = 2 ^ 60 - 1"

subsection \<open>Member functions\<close>

definition ContainsWorker :: "SchedulerWorker list \<Rightarrow> SchedulerWorker \<Rightarrow> bool" where
  "ContainsWorker ws worker = (worker \<in> set ws)"

definition WakeUp :: "SchedulerWorker \<Rightarrow> SchedulerWorkerPoolImpl \<Rightarrow> SchedulerWorkerPoolImpl" where
  "WakeUp worker s = s\<lparr>woken := woken s @ [worker]\<rparr>"

definition SetIsOnIdleWorkersStack ::
  "SchedulerWorker \<Rightarrow> SchedulerWorkerPoolImpl \<Rightarrow> fatal + SchedulerWorkerPoolImpl" where
  "SetIsOnIdleWorkersStack worker s =
     (if is_on_idle_workers_stack (delegate s worker) then Inl DCHECK_failed
      else if \<not> SchedulerWorkerStack_Contains (idle_workers_stack s) worker
        then Inl DCHECK_failed
      else Inr (s\<lparr>delegate := (delegate s)
                  (worker := (delegate s worker)\<lparr>is_on_idle_workers_stack := True\<rparr>)\<rparr>))"

definition UnsetIsOnIdleWorkersStack ::
  "SchedulerWorker \<Rightarrow> SchedulerWorkerPoolImpl \<Rightarrow> fatal + SchedulerWorkerPoolImpl" where
  "UnsetIsOnIdleWorkersStack worker s =
     (if \<not> is_on_idle_workers_stack (delegate s worker) then Inl DCHECK_failed
      else if SchedulerWorkerStack_Contains (idle_workers_stack s) worker
        then Inl DCHECK_failed
      else Inr (s\<lparr>delegate := (delegate s)
                  (worker := (delegate s worker)\<lparr>is_on_idle_workers_stack := False\<rparr>)\<rparr>))"

definition AssertIsOnIdleWorkersStack ::
  "SchedulerWorker \<Rightarrow> SchedulerWorkerPoolImpl \<Rightarrow> fatal + SchedulerWorkerPoolImpl" where
  "AssertIsOnIdleWorkersStack worker s =
     (if \<not> is_on_idle_workers_stack (delegate s worker) then Inl DCHECK_failed
      else if \<not> SchedulerWorkerStack_Contains (idle_workers_stack s) worker
        then Inl DCHECK_failed
      else Inr s)"

text \<open>
  \<open>started\<close> is the answer of \<open>worker->Start()\<close>, that is, whether the operating system
  gave the worker its thread. A worker whose thread did not start is dropped again and
  leaves no trace.
\<close>

definition CreateRegisterAndStartSchedulerWorker ::
  "bool \<Rightarrow> SchedulerWorkerPoolImpl \<Rightarrow> fatal + (SchedulerWorker option \<times> SchedulerWorkerPoolImpl)" where
  "CreateRegisterAndStartSchedulerWorker started s =
     (if \<not> length (workers s) < worker_capacity s then Inl DCHECK_failed
      else if \<not> started then Inr (None, s)
      else
        let worker = next_worker s;
            s1 = s\<lparr>next_worker := Suc worker,
                   delegate := (delegate s)(worker := new_delegate),
                   workers := workers s @ [worker]\<rparr>
        in (case cleanup_timestamps s1 of
              [] \<Rightarrow> Inr (Some worker, s1)
            | t # ts \<Rightarrow>
                Inr (Some worker,
                     s1\<lparr>detach_duration_histogram :=
                          detach_duration_histogram s1 @ [clock s1 - t],
                        cleanup_timestamps := ts\<rparr>)))"

definition AddToIdleWorkersStack ::
  "SchedulerWorker \<Rightarrow> SchedulerWorkerPoolImpl \<Rightarrow> fatal + SchedulerWorkerPoolImpl" where
  "AddToIdleWorkersStack worker s =
     (if SchedulerWorkerStack_Contains (idle_workers_stack s) worker then Inl DCHECK_failed
      else case SchedulerWorkerStack_Push worker (idle_workers_stack s) of
        Inl e \<Rightarrow> Inl e
      | Inr st \<Rightarrow>
          let s1 = s\<lparr>idle_workers_stack := st\<rparr> in
          if \<not> SchedulerWorkerStack_Size (idle_workers_stack s1) \<le> length (workers s1)
            then Inl DCHECK_failed
          else if SchedulerWorkerStack_Size (idle_workers_stack s1) = length (workers s1)
            then Inr (s1\<lparr>broadcasts := Suc (broadcasts s1)\<rparr>)
          else Inr s1)"

definition PeekAtIdleWorkersStack :: "SchedulerWorkerPoolImpl \<Rightarrow> SchedulerWorker option" where
  "PeekAtIdleWorkersStack s = SchedulerWorkerStack_Peek (idle_workers_stack s)"

definition RemoveFromIdleWorkersStack ::
  "SchedulerWorker \<Rightarrow> SchedulerWorkerPoolImpl \<Rightarrow> SchedulerWorkerPoolImpl" where
  "RemoveFromIdleWorkersStack worker s =
     s\<lparr>idle_workers_stack := SchedulerWorkerStack_Remove worker (idle_workers_stack s)\<rparr>"

definition CanWorkerCleanupForTesting :: "SchedulerWorkerPoolImpl \<Rightarrow> bool" where
  "CanWorkerCleanupForTesting s = (\<not> worker_cleanup_disallowed s)"

definition DisallowWorkerCleanupForTesting ::
  "SchedulerWorkerPoolImpl \<Rightarrow> SchedulerWorkerPoolImpl" where
  "DisallowWorkerCleanupForTesting s = s\<lparr>worker_cleanup_disallowed := True\<rparr>"

definition CanCleanup :: "SchedulerWorker \<Rightarrow> SchedulerWorkerPoolImpl \<Rightarrow> bool" where
  "CanCleanup worker s =
     (Some worker \<noteq> PeekAtIdleWorkersStack s \<and> CanWorkerCleanupForTesting s)"

definition Cleanup ::
  "SchedulerWorker \<Rightarrow> SchedulerWorkerPoolImpl \<Rightarrow> fatal + SchedulerWorkerPoolImpl" where
  "Cleanup worker s =
     (let s1 = s\<lparr>num_tasks_before_detach_histogram :=
                   num_tasks_before_detach_histogram s
                     @ [num_tasks_since_last_detach (delegate s worker)],
                 cleanup_timestamps := clock s # cleanup_timestamps s,
                 cleaned_up := cleaned_up s @ [worker]\<rparr>;
          s2 = RemoveFromIdleWorkersStack worker s1
      in if worker \<notin> set (workers s2) then Inl DCHECK_failed
         else Inr (s2\<lparr>workers := remove1 worker (workers s2)\<rparr>))"

definition DidRunTask ::
  "SchedulerWorker \<Rightarrow> SchedulerWorkerPoolImpl \<Rightarrow> SchedulerWorkerPoolImpl" where
  "DidRunTask worker s =
     s\<lparr>delegate := (delegate s)
        (worker := (delegate s worker)
           \<lparr>num_tasks_since_last_wait := Suc (num_tasks_since_last_wait (delegate s worker)),
            num_tasks_since_last_detach :=
              Suc (num_tasks_since_last_detach (delegate s worker))\<rparr>)\<rparr>"

definition GetWork ::
  "SchedulerWorker \<Rightarrow> SchedulerWorkerPoolImpl
     \<Rightarrow> fatal + (Sequence option \<times> SchedulerWorkerPoolImpl)" where
  "GetWork worker s =
     (if \<not> ContainsWorker (workers s) worker then Inl DCHECK_failed
      else if is_on_idle_workers_stack (delegate s worker)
                \<noteq> SchedulerWorkerStack_Contains (idle_workers_stack s) worker
        then Inl DCHECK_failed
      else if is_on_idle_workers_stack (delegate s worker) then
        (case (if CanCleanup worker s then Cleanup worker s else Inr s) of
           Inl e \<Rightarrow> Inl e
         | Inr s1 \<Rightarrow>
             if num_tasks_since_last_wait (delegate s1 worker) \<noteq> 0 then Inl DCHECK_failed
             else Inr (None,
                       s1\<lparr>num_tasks_between_waits_histogram :=
                            num_tasks_between_waits_histogram s1
                              @ [num_tasks_since_last_wait (delegate s1 worker)]\<rparr>))
      else if PriorityQueue_IsEmpty (shared_priority_queue s) then
        (let s1 = s\<lparr>num_tasks_between_waits_histogram :=
                      num_tasks_between_waits_histogram s
                        @ [num_tasks_since_last_wait (delegate s worker)],
                    delegate := (delegate s)
                      (worker := (delegate s worker)\<lparr>num_tasks_since_last_wait := 0\<rparr>)\<rparr>
         in case AddToIdleWorkersStack worker s1 of
              Inl e \<Rightarrow> Inl e
            | Inr s2 \<Rightarrow>
                (case SetIsOnIdleWorkersStack worker s2 of
                   Inl e \<Rightarrow> Inl e
                 | Inr s3 \<Rightarrow> Inr (None, s3)))
      else
        (case PriorityQueue_PopSequence (shared_priority_queue s) of
           (sequence, q) \<Rightarrow>
             let s1 = s\<lparr>shared_priority_queue := q\<rparr> in
             if sequence = None then Inl DCHECK_failed
             else if SchedulerWorkerStack_Contains (idle_workers_stack s1) worker
               then Inl DCHECK_failed
             else Inr (sequence, s1)))"

definition ReEnqueueSequence ::
  "Sequence \<Rightarrow> SchedulerWorkerPoolImpl \<Rightarrow> SchedulerWorkerPoolImpl" where
  "ReEnqueueSequence sequence s =
     (let sequence_sort_key = GetSortKey sequence
      in s\<lparr>shared_priority_queue :=
             PriorityQueue_Push sequence sequence_sort_key (shared_priority_queue s)\<rparr>)"

text \<open>
  \<open>started1\<close> and \<open>started2\<close> answer the first and the second call of
  \<open>CreateRegisterAndStartSchedulerWorker\<close>, where they happen.
\<close>

definition WakeUpOneWorker ::
  "bool \<Rightarrow> bool \<Rightarrow> SchedulerWorkerPoolImpl \<Rightarrow> fatal + SchedulerWorkerPoolImpl" where
  "WakeUpOneWorker started1 started2 s =
     (if workers s = [] then
        Inr (s\<lparr>num_wake_ups_before_start := num_wake_ups_before_start s + 1\<rparr>)
      else
        case (if SchedulerWorkerStack_IsEmpty (idle_workers_stack s)
                   \<and> length (workers s) < worker_capacity s
              then CreateRegisterAndStartSchedulerWorker started1 s
              else (case SchedulerWorkerStack_Pop (idle_workers_stack s) of
                      (w, st) \<Rightarrow> Inr (w, s\<lparr>idle_workers_stack := st\<rparr>))) of
          Inl e \<Rightarrow> Inl e
        | Inr (worker, s1) \<Rightarrow>
            (case (case worker of
                     None \<Rightarrow> Inr s1
                   | Some w \<Rightarrow>
                       (case UnsetIsOnIdleWorkersStack w s1 of
                          Inl e \<Rightarrow> Inl e
                        | Inr s2 \<Rightarrow> Inr (WakeUp w s2))) of
               Inl e \<Rightarrow> Inl e
             | Inr s3 \<Rightarrow>
                 if SchedulerWorkerStack_IsEmpty (idle_workers_stack s3)
                      \<and> length (workers s3) < worker_capacity s3
                 then
                   (case CreateRegisterAndStartSchedulerWorker started2 s3 of
                      Inl e \<Rightarrow> Inl e
                    | Inr (new_worker, s4) \<Rightarrow>
                        (case new_worker of
                           None \<Rightarrow> Inr s4
                         | Some w \<Rightarrow>
                             (case SchedulerWorkerStack_Push w (idle_workers_stack s4) of
                                Inl e \<Rightarrow> Inl e
                              | Inr st \<Rightarrow> Inr (s4\<lparr>idle_workers_stack := st\<rparr>))))
                 else Inr s3))"

definition ScheduleSequence ::
  "Sequence \<Rightarrow> bool \<Rightarrow> bool \<Rightarrow> SchedulerWorkerPoolImpl \<Rightarrow> fatal + SchedulerWorkerPoolImpl" where
  "ScheduleSequence sequence started1 started2 s =
     (let sequence_sort_key = GetSortKey sequence;
          s1 = s\<lparr>shared_priority_queue :=
                   PriorityQueue_Push sequence sequence_sort_key (shared_priority_queue s)\<rparr>
      in WakeUpOneWorker started1 started2 s1)"

text \<open>
  The loop of \<open>Start\<close>; \<open>started index\<close> answers the \<open>worker->Start()\<close> of the worker
  created at \<open>index\<close>. Before the loop, \<open>Start\<close> adds one to
  \<open>num_wake_ups_before_start_\<close> as an \<open>int\<close> and hands the minimum, converted to
  \<open>size_t\<close>, to \<open>workers_.reserve\<close>.
\<close>

function Start_loop ::
  "(nat \<Rightarrow> bool) \<Rightarrow> int \<Rightarrow> int \<Rightarrow> SchedulerWorkerPoolImpl \<Rightarrow> fatal + SchedulerWorkerPoolImpl" where
  "Start_loop started index num_initial_workers s =
     (if index < num_initial_workers then
        (case CreateRegisterAndStartSchedulerWorker (started (nat index)) s of
           Inl e \<Rightarrow> Inl e
         | Inr (worker, s1) \<Rightarrow>
             if \<not> (worker \<noteq> None \<or> index > 0) then Inl CHECK_failed
             else
               (case worker of
                  None \<Rightarrow> Start_loop started (index + 1) num_initial_workers s1
                | Some w \<Rightarrow>
                    if index < num_wake_ups_before_start s1 then
                      (case UnsetIsOnIdleWorkersStack w s1 of
                         Inl e \<Rightarrow> Inl e
                       | Inr s2 \<Rightarrow>
                           Start_loop started (index + 1) num_initial_workers (WakeUp w s2))
                    else
                      (case SchedulerWorkerStack_Push w (idle_workers_stack s1) of
                         Inl e \<Rightarrow> Inl e
                       | Inr st \<Rightarrow>
                           (case AssertIsOnIdleWorkersStack w (s1\<lparr>idle_workers_stack := st\<rparr>) of
                              Inl e \<Rightarrow> Inl e
                            | Inr s2 \<Rightarrow>
                                Start_loop started (index + 1) num_initial_workers s2))))
      else Inr s)"
  by pat_completeness auto
termination
  by (relation "measure (\<lambda>(started, index, num_initial_workers, s).
                  nat (num_initial_workers - index))") auto

definition Start ::
  "SchedulerWorkerPoolParams \<Rightarrow> (nat \<Rightarrow> bool) \<Rightarrow> SchedulerWorkerPoolImpl
     \<Rightarrow> fatal + SchedulerWorkerPoolImpl" where
  "Start params started s =
     (if workers s \<noteq> [] then Inl DCHECK_failed
      else
        let s1 = s\<lparr>worker_capacity := size_t_of_int (max_threads params),
                   suggested_reclaim_time := params_suggested_reclaim_time params,
                   backward_compatibility := params_backward_compatibility params\<rparr>
        in if INT_MAX < num_wake_ups_before_start s1 + 1 then Inl signed_overflow
           else
             let num_initial_workers =
                   min (num_wake_ups_before_start s1 + 1)
                       (static_cast_int (worker_capacity s1))
             in if vector_max_size < size_t_of_int num_initial_workers then Inl length_error
                else Start_loop started 0 num_initial_workers s1)"

subsection \<open>Executions of the pool\<close>

text \<open>
  One constructor for each entry point of the pool and of a worker's delegate, with the
  answers of the operating system it needs; \<open>Op_AdvanceClock\<close> lets time pass between
  two calls. \<open>Cleanup\<close> is private to the delegate and runs inside \<open>GetWork\<close>.
\<close>

datatype pool_op =
    Op_Start SchedulerWorkerPoolParams "nat \<Rightarrow> bool"
  | Op_ScheduleSequence Sequence bool bool
  | Op_WakeUpOneWorker bool bool
  | Op_GetWork SchedulerWorker
  | Op_ReEnqueueSequence Sequence
  | Op_DidRunTask SchedulerWorker
  | Op_DisallowWorkerCleanupForTesting
  | Op_AdvanceClock nat

fun run_op :: "pool_op \<Rightarrow> SchedulerWorkerPoolImpl \<Rightarrow> fatal + SchedulerWorkerPoolImpl" where
  "run_op (Op_Start params started) s = Start params started s"
| "run_op (Op_ScheduleSequence sequence started1 started2) s =
     ScheduleSequence sequence started1 started2 s"
| "run_op (Op_WakeUpOneWorker started1 started2) s = WakeUpOneWorker started1 started2 s"
| "run_op (Op_GetWork worker) s =
     (case GetWork worker s of Inl e \<Rightarrow> Inl e | Inr (sequence, s1) \<Rightarrow> Inr s1)"
| "run_op (Op_ReEnqueueSequence sequence) s = Inr (ReEnqueueSequence sequence s)"
| "run_op (Op_DidRunTask worker) s = Inr (DidRunTask worker s)"
| "run_op Op_DisallowWorkerCleanupForTesting s = Inr (DisallowWorkerCleanupForTesting s)"
| "run_op (Op_AdvanceClock d) s = Inr (s\<lparr>clock := clock s + int d\<rparr>)"

fun run_ops :: "pool_op list \<Rightarrow> SchedulerWorkerPoolImpl \<Rightarrow> fatal + SchedulerWorkerPoolImpl" where
  "run_ops [] s = Inr s"
| "run_ops (x # xs) s = (case run_op x s of Inl e \<Rightarrow> Inl e | Inr s1 \<Rightarrow> run_ops xs s1)"

subsection \<open>Vocabulary of the proofs about the pool\<close>

text \<open>
  The invariant of the pool: no worker is registered or idle twice, the idle workers are
  registered workers, the registered workers fit the capacity, every registered worker is
  an object made before \<open>next_worker\<close>, the flag of a registered worker's delegate says
  whether the worker is on the idle stack, and the count of early wake-ups is not negative.
\<close>

definition pool_inv :: "SchedulerWorkerPoolImpl \<Rightarrow> bool" where
  "pool_inv s \<longleftrightarrow>
     distinct (workers s) \<and> distinct (idle_workers_stack s)
     \<and> set (idle_workers_stack s) \<subseteq> set (workers s)
     \<and> length (workers s) \<le> worker_capacity s
     \<and> (\<forall>w \<in> set (workers s). w < next_worker s)
     \<and> (\<forall>w \<in> set (workers s).
           is_on_idle_workers_stack (delegate s w) = (w \<in> set (idle_workers_stack s)))
     \<and> 0 \<le> num_wake_ups_before_start s"

text \<open>The pool after a new worker was created, started and registered.\<close>

definition created :: "SchedulerWorkerPoolImpl \<Rightarrow> SchedulerWorkerPoolImpl" where
  "created s =
     (let s1 = s\<lparr>next_worker := Suc (next_worker s),
                 delegate := (delegate s)(next_worker s := new_delegate),
                 workers := workers s @ [next_worker s]\<rparr>
      in case cleanup_timestamps s of
           [] \<Rightarrow> s1
         | t # ts \<Rightarrow>
             s1\<lparr>detach_duration_histogram := detach_duration_histogram s @ [clock s - t],
                cleanup_timestamps := ts\<rparr>)"

definition set_idle_flag ::
  "SchedulerWorker \<Rightarrow> bool \<Rightarrow> SchedulerWorkerPoolImpl \<Rightarrow> SchedulerWorkerPoolImpl" where
  "set_idle_flag w b s =
     s\<lparr>delegate := (delegate s)(w := (delegate s w)\<lparr>is_on_idle_workers_stack := b\<rparr>)\<rparr>"

text \<open>The pool after worker \<open>w\<close> was marked as not idle and woken up.\<close>

definition woke :: "SchedulerWorker \<Rightarrow> SchedulerWorkerPoolImpl \<Rightarrow> SchedulerWorkerPoolImpl" where
  "woke w s = WakeUp w (set_idle_flag w False s)"

text \<open>The pool after \<open>Cleanup\<close> of a worker.\<close>

definition cleaned :: "SchedulerWorker \<Rightarrow> SchedulerWorkerPoolImpl \<Rightarrow> SchedulerWorkerPoolImpl" where
  "cleaned worker s =
     s\<lparr>num_tasks_before_detach_histogram :=
          num_tasks_before_detach_histogram s @ [num_tasks_since_last_detach (delegate s worker)],
        cleanup_timestamps := clock s # cleanup_timestamps s,
        cleaned_up := cleaned_up s @ [worker],
        idle_workers_stack := remove1 worker (idle_workers_stack s),
        workers := remove1 worker (workers s)\<rparr>"

text \<open>The sample that \<open>GetWork\<close> records when it was entered after a timeout.\<close>

definition timed_out :: "SchedulerWorkerPoolImpl \<Rightarrow> SchedulerWorkerPoolImpl" where
  "timed_out s =
     s\<lparr>num_tasks_between_waits_histogram := num_tasks_between_waits_histogram s @ [0]\<rparr>"

text \<open>The pool after a worker found the queue empty and went idle.\<close>

definition went_idle :: "SchedulerWorker \<Rightarrow> SchedulerWorkerPoolImpl \<Rightarrow> SchedulerWorkerPoolImpl" where
  "went_idle worker s =
     (let s1 = s\<lparr>num_tasks_between_waits_histogram :=
                   num_tasks_between_waits_histogram s
                     @ [num_tasks_since_last_wait (delegate s worker)],
                 delegate := (delegate s)
                   (worker := (delegate s worker)
                      \<lparr>num_tasks_since_last_wait := 0, is_on_idle_workers_stack := True\<rparr>),
                 idle_workers_stack := worker # idle_workers_stack s\<rparr>
      in if Suc (length (idle_workers_stack s)) = length (workers s)
         then s1\<lparr>broadcasts := Suc (broadcasts s)\<rparr> else s1)"

text \<open>The pool after the iteration \<open>index\<close> of the loop of \<open>Start\<close> started its worker.\<close>

definition start_worker :: "int \<Rightarrow> SchedulerWorkerPoolImpl \<Rightarrow> SchedulerWorkerPoolImpl" where
  "start_worker index s =
     (if index < num_wake_ups_before_start s then woke (next_worker s) (created s)
      else (created s)\<lparr>idle_workers_stack := next_worker s # idle_workers_stack s\<rparr>)"

text \<open>
  The three steps that the description of \<open>WakeUpOneWorker\<close> names. To create a worker
  is to ask for it: a worker whose thread does not start (\<open>started\<close> is false) is not
  registered and there is nothing to wake or to push. To pop and wake the top of an empty
  stack is to do nothing.
\<close>

definition create_and_wake :: "bool \<Rightarrow> SchedulerWorkerPoolImpl \<Rightarrow> SchedulerWorkerPoolImpl" where
  "create_and_wake started s = (if started then woke (next_worker s) (created s) else s)"

definition pop_and_wake :: "SchedulerWorkerPoolImpl \<Rightarrow> SchedulerWorkerPoolImpl" where
  "pop_and_wake s =
     (case idle_workers_stack s of
        [] \<Rightarrow> s
      | w # rest \<Rightarrow> woke w (s\<lparr>idle_workers_stack := rest\<rparr>))"

definition keep_standby :: "bool \<Rightarrow> SchedulerWorkerPoolImpl \<Rightarrow> SchedulerWorkerPoolImpl" where
  "keep_standby started s =
     (if idle_workers_stack s = [] \<and> length (workers s) < worker_capacity s \<and> started
      then (created s)\<lparr>idle_workers_stack := [next_worker s]\<rparr> else s)"


text \<open>The number of workers that \<open>Start\<close> sets out to create.\<close>

definition num_initial_workers :: "SchedulerWorkerPoolParams \<Rightarrow> SchedulerWorkerPoolImpl \<Rightarrow> int" where
  "num_initial_workers params s =
     min (num_wake_ups_before_start s + 1)
         (static_cast_int (size_t_of_int (max_threads params)))"

subsection \<open>Example pools\<close>

definition params_four :: SchedulerWorkerPoolParams where
  "params_four =
     \<lparr>max_threads = 4, params_suggested_reclaim_time = 30,
      params_backward_compatibility = False\<rparr>"

definition params_minus_one :: SchedulerWorkerPoolParams where
  "params_minus_one =
     \<lparr>max_threads = - 1, params_suggested_reclaim_time = 30,
      params_backward_compatibility = False\<rparr>"

text \<open>A pool that was asked to wake a worker twice before \<open>Start\<close>.\<close>

definition pool_two_early_wake_ups :: SchedulerWorkerPoolImpl where
  "pool_two_early_wake_ups = new_pool\<lparr>num_wake_ups_before_start := 2\<rparr>"

text \<open>A pool of capacity 4 whose three workers are all idle; worker 2 went idle last.\<close>

definition pool_three_idle :: SchedulerWorkerPoolImpl where
  "pool_three_idle =
     new_pool\<lparr>workers := [0, 1, 2], idle_workers_stack := [2, 1, 0], worker_capacity := 4,
              next_worker := 3\<rparr>"

text \<open>A pool of capacity 1 whose only worker is busy.\<close>

definition pool_full :: SchedulerWorkerPoolImpl where
  "pool_full =
     new_pool\<lparr>workers := [0], worker_capacity := 1, next_worker := 1,
              delegate := (\<lambda>w. new_delegate)
                (0 := new_delegate\<lparr>is_on_idle_workers_stack := False\<rparr>)\<rparr>"

definition sequence_one :: Sequence where
  "sequence_one = \<lparr>GetSortKey = (1, 7), token = 1\<rparr>"

definition example_run :: "pool_op list" where
  "example_run =
     [Op_WakeUpOneWorker True True, Op_WakeUpOneWorker True True,
      Op_Start params_four (\<lambda>index. True), Op_GetWork 0,
      Op_ScheduleSequence sequence_one True True, Op_GetWork 0,
      Op_ReEnqueueSequence sequence_one, Op_GetWork 2]"

section \<open>The thread controller (task/sequence_manager/thread_controller_impl.cc)\<close>

text \<open>
  The controller runs on one thread; its member functions are taken one call at a time.
  The classes it talks to are declared outside the translated file and enter as parameters:
  the work deduplicator and the task source as records of their member functions over a
  state of any type, the running of a task as a function on the controller (a task may call
  back into the controller, and may destroy it: \<open>None\<close>). Time is an integer; the
  arithmetic of \<open>TimeTicks\<close> and \<open>TimeDelta\<close> is taken without its saturation.
\<close>

datatype ShouldScheduleWork = kScheduleImmediate | kNotNeeded

datatype NextTask = kIsImmediate | kIsDelayed

datatype WorkType = kImmediate | kDelayed

record 'd WorkDeduplicator =
  OnWorkRequested :: "'d \<Rightarrow> ShouldScheduleWork \<times> 'd"
  OnDelayedWorkRequested :: "'d \<Rightarrow> ShouldScheduleWork \<times> 'd"
  OnWorkStarted :: "'d \<Rightarrow> 'd"
  WillCheckForMoreWork :: "'d \<Rightarrow> 'd"
  DidCheckForMoreWork :: "NextTask \<Rightarrow> 'd \<Rightarrow> ShouldScheduleWork \<times> 'd"

record ('src, 'task) SequencedTaskSource =
  SelectNextTask :: "'src \<Rightarrow> 'task option \<times> 'src"
  SequencedTaskSource_DidRunTask :: "'src \<Rightarrow> 'src"
  RemoveAllCanceledDelayedTasksFromFront :: "TimeTicks \<Rightarrow> 'src \<Rightarrow> 'src"
  GetNextTaskTime :: "TimeTicks \<Rightarrow> 'src \<Rightarrow> TimeTicks"
  OnSystemIdle :: "'src \<Rightarrow> bool \<times> 'src"

definition TimeTicks_Max :: TimeTicks where
  "TimeTicks_Max = 2 ^ 63 - 1"

definition is_null :: "TimeTicks \<Rightarrow> bool" where
  "is_null t = (t = 0)"

definition is_max :: "TimeTicks \<Rightarrow> bool" where
  "is_max t = (t = TimeTicks_Max)"

text \<open>
  Modelled from the spec: the class RunLevelTracker is not part of the translated sources.
  The spec speaks of run levels that are entered and exited, the nested ones on top of the
  outer ones. The tracker is the stack of the run levels that are running, each with the
  state it was last given; \<open>num_run_levels\<close> is its depth.
\<close>

datatype RunLevelState = kIdle | kSelectingNextTask | kRunningTask

type_synonym RunLevelTracker = "RunLevelState list"

definition num_run_levels :: "RunLevelTracker \<Rightarrow> nat" where
  "num_run_levels t = length t"

definition OnRunLoopStarted :: "RunLevelState \<Rightarrow> RunLevelTracker \<Rightarrow> RunLevelTracker" where
  "OnRunLoopStarted st t = st # t"

definition OnRunLoopEnded :: "RunLevelTracker \<Rightarrow> RunLevelTracker" where
  "OnRunLoopEnded t = tl t"

definition UpdateState :: "RunLevelState \<Rightarrow> RunLevelTracker \<Rightarrow> RunLevelTracker" where
  "UpdateState st t = (case t of [] \<Rightarrow> [] | x # r \<Rightarrow> st # r)"

definition OnTaskStarted :: "RunLevelTracker \<Rightarrow> RunLevelTracker" where
  "OnTaskStarted t = UpdateState kRunningTask t"

definition OnTaskEnded :: "RunLevelTracker \<Rightarrow> RunLevelTracker" where
  "OnTaskEnded t = UpdateState kSelectingNextTask t"

definition OnIdle :: "RunLevelTracker \<Rightarrow> RunLevelTracker" where
  "OnIdle t = UpdateState kIdle t"

text \<open>
  What the controller hands to \<open>task_runner_\<close>: the immediate \<open>DoWork\<close> closure, or
  the callback of the cancelable closure (told apart by the number of its binding) with a
  delay.
\<close>

datatype posted_task = PostTask WorkType | PostDelayedTask nat int

datatype nesting_call = Observer_OnBeginNestedRunLoop | Observer_OnExitNestedRunLoop

text \<open>
  The members of \<open>ThreadControllerImpl\<close>. \<open>tc_sequence\<close> is \<open>sequence_\<close> (null until
  \<open>SetSequencedTaskSource\<close>) together with the state of the task source it points to;
  \<open>work_batch_size_\<close> is a C++ \<open>int\<close>; \<open>cancelable_delayed_do_work_closure\<close> is the
  binding the cancelable closure holds, if it holds one, and \<open>closures_bound\<close> counts its
  \<open>Reset\<close>s; \<open>posted\<close> lists the calls of \<open>task_runner_\<close>; \<open>nesting_observer\<close> says
  whether an observer is set and \<open>nesting_observer_calls\<close> what it was told.
\<close>

record ('d, 'src) ThreadControllerImpl =
  work_deduplicator :: 'd
  tc_sequence :: "'src option"
  work_batch_size :: "32 word"
  next_delayed_do_work :: TimeTicks
  run_level_tracker :: RunLevelTracker
  cancelable_delayed_do_work_closure :: "nat option"
  closures_bound :: nat
  posted :: "posted_task list"
  nesting_observer :: bool
  nesting_observer_calls :: "nesting_call list"

definition Cancel :: "('d, 'src) ThreadControllerImpl \<Rightarrow> ('d, 'src) ThreadControllerImpl" where
  "Cancel s = s\<lparr>cancelable_delayed_do_work_closure := None\<rparr>"

definition Reset :: "('d, 'src) ThreadControllerImpl \<Rightarrow> ('d, 'src) ThreadControllerImpl" where
  "Reset s =
     s\<lparr>cancelable_delayed_do_work_closure := Some (closures_bound s),
       closures_bound := Suc (closures_bound s)\<rparr>"

definition PostDelayedCallback ::
  "int \<Rightarrow> ('d, 'src) ThreadControllerImpl \<Rightarrow> ('d, 'src) ThreadControllerImpl" where
  "PostDelayedCallback delay s =
     (case cancelable_delayed_do_work_closure s of
        None \<Rightarrow> s
      | Some c \<Rightarrow> s\<lparr>posted := posted s @ [PostDelayedTask c delay]\<rparr>)"

definition PostImmediate ::
  "('d, 'src) ThreadControllerImpl \<Rightarrow> ('d, 'src) ThreadControllerImpl" where
  "PostImmediate s = s\<lparr>posted := posted s @ [PostTask kImmediate]\<rparr>"

definition ScheduleWork ::
  "'d WorkDeduplicator \<Rightarrow> ('d, 'src) ThreadControllerImpl \<Rightarrow> ('d, 'src) ThreadControllerImpl" where
  "ScheduleWork D s =
     (case OnWorkRequested D (work_deduplicator s) of
        (answer, d) \<Rightarrow>
          let s1 = s\<lparr>work_deduplicator := d\<rparr> in
          if answer = kScheduleImmediate then PostImmediate s1 else s1)"

definition SetNextDelayedDoWork ::
  "'d WorkDeduplicator \<Rightarrow> TimeTicks \<Rightarrow> TimeTicks \<Rightarrow> ('d, 'src) ThreadControllerImpl
     \<Rightarrow> fatal + ('d, 'src) ThreadControllerImpl" where
  "SetNextDelayedDoWork D lazy_now run_time s =
     (if tc_sequence s = None then Inl DCHECK_failed
      else if next_delayed_do_work s = run_time then Inr s
      else if run_time = TimeTicks_Max then
        Inr ((Cancel s)\<lparr>next_delayed_do_work := TimeTicks_Max\<rparr>)
      else
        (case OnDelayedWorkRequested D (work_deduplicator s) of
           (answer, d) \<Rightarrow>
             let s1 = s\<lparr>work_deduplicator := d\<rparr> in
             if answer = kNotNeeded then Inr s1
             else
               let delay = max 0 (run_time - lazy_now);
                   s2 = s1\<lparr>next_delayed_do_work := run_time\<rparr>
               in Inr (PostDelayedCallback delay (Reset s2))))"

text \<open>
  The loop of \<open>DoWork\<close>. Its result is the list of the answers of \<open>SelectNextTask\<close>, in
  order, each selected task having been run, and the controller it leaves, if the controller
  is still there. The counter stays below \<open>work_batch_size_\<close>, so it never overflows.
\<close>

function DoWork_loop ::
  "('src, 'task) SequencedTaskSource
     \<Rightarrow> ('task \<Rightarrow> ('d, 'src) ThreadControllerImpl \<Rightarrow> ('d, 'src) ThreadControllerImpl option)
     \<Rightarrow> int \<Rightarrow> ('d, 'src) ThreadControllerImpl
     \<Rightarrow> fatal + ('task option list \<times> ('d, 'src) ThreadControllerImpl option)" where
  "DoWork_loop S RunTask i s =
     (if i < sint (work_batch_size s) then
        (case tc_sequence s of
           None \<Rightarrow> Inl DCHECK_failed
         | Some src \<Rightarrow>
             (case SelectNextTask S src of
                (None, src1) \<Rightarrow> Inr ([None], Some (s\<lparr>tc_sequence := Some src1\<rparr>))
              | (Some task, src1) \<Rightarrow>
                  if \<not> num_run_levels (run_level_tracker s) > 0 then Inl DCHECK_failed
                  else
                    (case RunTask task
                            (s\<lparr>tc_sequence := Some src1,
                               run_level_tracker := OnTaskStarted (run_level_tracker s)\<rparr>) of
                       None \<Rightarrow> Inr ([Some task], None)
                     | Some s3 \<Rightarrow>
                         let s4 = s3\<lparr>tc_sequence :=
                                      map_option (SequencedTaskSource_DidRunTask S) (tc_sequence s3),
                                    run_level_tracker := OnTaskEnded (run_level_tracker s3)\<rparr>
                         in if num_run_levels (run_level_tracker s4) > 1
                            then Inr ([Some task], Some s4)
                            else
                              (case DoWork_loop S RunTask (i + 1) s4 of
                                 Inl e \<Rightarrow> Inl e
                               | Inr (selected, r) \<Rightarrow> Inr (Some task # selected, r)))))
      else Inr ([], Some s))"
  by pat_completeness auto
termination
proof (relation "measure (\<lambda>(S, RunTask, i, s). nat (2 ^ 31 - i))", goal_cases)
  case 1
  show ?case by simp
next
  case (2 S RunTask i s src sel task src1 s3 s4)
  then show ?case using sint_lt[of "work_batch_size s"] by simp
qed

text \<open>The rest of \<open>DoWork\<close>, from \<open>WillCheckForMoreWork\<close> on.\<close>

definition DoWork_after_loop ::
  "'d WorkDeduplicator \<Rightarrow> ('src, 'task) SequencedTaskSource \<Rightarrow> TimeTicks
     \<Rightarrow> ('d, 'src) ThreadControllerImpl \<Rightarrow> fatal + ('d, 'src) ThreadControllerImpl" where
  "DoWork_after_loop D S now s =
     (case tc_sequence s of
        None \<Rightarrow> Inl DCHECK_failed
      | Some src \<Rightarrow>
          let s1 = s\<lparr>work_deduplicator := WillCheckForMoreWork D (work_deduplicator s)\<rparr>;
              src1 = RemoveAllCanceledDelayedTasksFromFront S now src;
              next_task_time = GetNextTaskTime S now src1;
              idle = (if is_null next_task_time then (True, src1) else OnSystemIdle S src1);
              s2 = s1\<lparr>tc_sequence := Some (snd idle)\<rparr>
          in if fst idle then
               (case DidCheckForMoreWork D kIsImmediate (work_deduplicator s2) of
                  (answer, d) \<Rightarrow>
                    let s3 = s2\<lparr>work_deduplicator := d\<rparr> in
                    if answer = kScheduleImmediate then Inr (PostImmediate s3) else Inr s3)
             else
               (case DidCheckForMoreWork D kIsDelayed (work_deduplicator s2) of
                  (answer, d) \<Rightarrow>
                    let s3 = s2\<lparr>work_deduplicator := d\<rparr> in
                    if answer = kScheduleImmediate then Inr (PostImmediate s3)
                    else
                      let s4 = s3\<lparr>run_level_tracker := OnIdle (run_level_tracker s3)\<rparr> in
                      if is_max next_task_time then
                        Inr (Cancel (s4\<lparr>next_delayed_do_work := TimeTicks_Max\<rparr>))
                      else if next_task_time = next_delayed_do_work s4 then Inr s4
                      else
                        Inr (PostDelayedCallback (next_task_time - now)
                               (Reset (s4\<lparr>next_delayed_do_work := next_task_time\<rparr>)))))"

definition DoWork ::
  "'d WorkDeduplicator \<Rightarrow> ('src, 'task) SequencedTaskSource
     \<Rightarrow> ('task \<Rightarrow> ('d, 'src) ThreadControllerImpl \<Rightarrow> ('d, 'src) ThreadControllerImpl option)
     \<Rightarrow> TimeTicks \<Rightarrow> WorkType \<Rightarrow> ('d, 'src) ThreadControllerImpl
     \<Rightarrow> fatal + ('task option list \<times> ('d, 'src) ThreadControllerImpl option)" where
  "DoWork D S RunTask now work_type s =
     (if tc_sequence s = None then Inl DCHECK_failed
      else
        (case DoWork_loop S RunTask 0
                (s\<lparr>work_deduplicator := OnWorkStarted D (work_deduplicator s)\<rparr>) of
           Inl e \<Rightarrow> Inl e
         | Inr (selected, r) \<Rightarrow>
             (case r of
                None \<Rightarrow> Inr (selected, None)
              | Some s1 \<Rightarrow>
                  (case DoWork_after_loop D S now s1 of
                     Inl e \<Rightarrow> Inl e
                   | Inr s2 \<Rightarrow> Inr (selected, Some s2)))))"

definition OnBeginNestedRunLoop ::
  "'d WorkDeduplicator \<Rightarrow> ('d, 'src) ThreadControllerImpl \<Rightarrow> ('d, 'src) ThreadControllerImpl" where
  "OnBeginNestedRunLoop D s =
     (let s1 = s\<lparr>run_level_tracker :=
                   OnRunLoopStarted kSelectingNextTask (run_level_tracker s)\<rparr>;
          s2 = s1\<lparr>work_deduplicator := snd (OnWorkRequested D (work_deduplicator s1))\<rparr>;
          s3 = PostImmediate s2
      in if nesting_observer s3
         then s3\<lparr>nesting_observer_calls :=
                   nesting_observer_calls s3 @ [Observer_OnBeginNestedRunLoop]\<rparr>
         else s3)"

definition OnExitNestedRunLoop ::
  "('d, 'src) ThreadControllerImpl \<Rightarrow> ('d, 'src) ThreadControllerImpl" where
  "OnExitNestedRunLoop s =
     (let s1 = (if nesting_observer s
                then s\<lparr>nesting_observer_calls :=
                         nesting_observer_calls s @ [Observer_OnExitNestedRunLoop]\<rparr>
                else s)
      in s1\<lparr>run_level_tracker := OnRunLoopEnded (run_level_tracker s1)\<rparr>)"

definition SetWorkBatchSize ::
  "32 word \<Rightarrow> ('d, 'src) ThreadControllerImpl \<Rightarrow> ('d, 'src) ThreadControllerImpl" where
  "SetWorkBatchSize n s = s\<lparr>work_batch_size := n\<rparr>"

subsection \<open>The work deduplicator of the spec\<close>

text \<open>
  Modelled from the spec: the class WorkDeduplicator is not part of the translated sources.
  The spec gives it the states Idle, Pending-immediate, Pending-delayed and Running, and
  for a work request: while Idle it moves to Pending and signals "schedule now", while
  already Pending it signals "already scheduled". For a request while Running the spec
  names no signal; none is given here and the state stays.
\<close>

datatype DedupState = Idle | PendingImmediate | PendingDelayed | Running

definition WorkDeduplicator_OnWorkRequested ::
  "DedupState \<Rightarrow> ShouldScheduleWork \<times> DedupState" where
  "WorkDeduplicator_OnWorkRequested d =
     (case d of
        Idle \<Rightarrow> (kScheduleImmediate, PendingImmediate)
      | PendingImmediate \<Rightarrow> (kNotNeeded, PendingImmediate)
      | PendingDelayed \<Rightarrow> (kNotNeeded, PendingDelayed)
      | Running \<Rightarrow> (kNotNeeded, Running))"

subsection \<open>Vocabulary of the proofs about the controller\<close>

text \<open>The tasks among the answers of \<open>SelectNextTask\<close>: the tasks that were run.\<close>

definition tasks_run :: "'task option list \<Rightarrow> 'task list" where
  "tasks_run selected = [task. Some task \<leftarrow> selected]"

definition before_task ::
  "'src \<Rightarrow> ('d, 'src) ThreadControllerImpl \<Rightarrow> ('d, 'src) ThreadControllerImpl" where
  "before_task src1 s =
     s\<lparr>tc_sequence := Some src1, run_level_tracker := OnTaskStarted (run_level_tracker s)\<rparr>"

definition after_task ::
  "('src, 'task) SequencedTaskSource \<Rightarrow> ('d, 'src) ThreadControllerImpl
     \<Rightarrow> ('d, 'src) ThreadControllerImpl" where
  "after_task S s3 =
     s3\<lparr>tc_sequence := map_option (SequencedTaskSource_DidRunTask S) (tc_sequence s3),
        run_level_tracker := OnTaskEnded (run_level_tracker s3)\<rparr>"

subsection \<open>An example controller\<close>

text \<open>
  A task source that hands out the numbers of a list in order and reports no delayed work,
  tasks that leave the controller alone, and a deduplicator that answers work requests as
  the spec says.
\<close>

definition list_source :: "(nat list, nat) SequencedTaskSource" where
  "list_source =
     \<lparr>SelectNextTask = (\<lambda>q. case q of [] \<Rightarrow> (None, []) | task # r \<Rightarrow> (Some task, r)),
      SequencedTaskSource_DidRunTask = (\<lambda>q. q),
      RemoveAllCanceledDelayedTasksFromFront = (\<lambda>now q. q),
      GetNextTaskTime = (\<lambda>now q. if q = [] then TimeTicks_Max else 0),
      OnSystemIdle = (\<lambda>q. (False, q))\<rparr>"

definition quiet_task ::
  "nat \<Rightarrow> (DedupState, nat list) ThreadControllerImpl
     \<Rightarrow> (DedupState, nat list) ThreadControllerImpl option" where
  "quiet_task task s = Some s"

definition spec_deduplicator :: "DedupState WorkDeduplicator" where
  "spec_deduplicator =
     \<lparr>OnWorkRequested = WorkDeduplicator_OnWorkRequested,
      OnDelayedWorkRequested = (\<lambda>d. (if d = Idle then kScheduleImmediate else kNotNeeded, d)),
      OnWorkStarted = (\<lambda>d. Running),
      WillCheckForMoreWork = (\<lambda>d. d),
      DidCheckForMoreWork =
        (\<lambda>next_task d. if next_task = kIsImmediate then (kScheduleImmediate, PendingImmediate)
                        else (kNotNeeded, Idle))\<rparr>"

text \<open>A task that calls \<open>SetWorkBatchSize(3)\<close> on its controller.\<close>

definition batch_growing_task ::
  "nat \<Rightarrow> (DedupState, nat list) ThreadControllerImpl
     \<Rightarrow> (DedupState, nat list) ThreadControllerImpl option" where
  "batch_growing_task task s = Some (SetWorkBatchSize 3 s)"

definition controller_three_tasks :: "(DedupState, nat list) ThreadControllerImpl" where
  "controller_three_tasks =
     \<lparr>work_deduplicator = Idle, tc_sequence = Some [10, 11, 12], work_batch_size = 2,
      next_delayed_do_work = 50, run_level_tracker = [kIdle],
      cancelable_delayed_do_work_closure = None, closures_bound = 0, posted = [],
      nesting_observer = False, nesting_observer_calls = []\<rparr>"

text \<open>
  The same controller with a work batch size of 1, and what is left of it after a
  \<open>DoWork\<close> whose tasks raised the work batch size to 3.
\<close>

definition controller_batch_one :: "(DedupState, nat list) ThreadControllerImpl" where
  "controller_batch_one = controller_three_tasks\<lparr>work_batch_size := 1\<rparr>"

definition controller_batch_one_done :: "(DedupState, nat list) ThreadControllerImpl" where
  "controller_batch_one_done =
     \<lparr>work_deduplicator = Idle, tc_sequence = Some [], work_batch_size = 3,
      next_delayed_do_work = TimeTicks_Max, run_level_tracker = [kIdle],
      cancelable_delayed_do_work_closure = None, closures_bound = 0, posted = [],
      nesting_observer = False, nesting_observer_calls = []\<rparr>"

section \<open>Properties of the worker pool\<close>

subsection \<open>What the steps do\<close>

lemmas stack_defs = SchedulerWorkerStack_Contains_def SchedulerWorkerStack_Push_def
  SchedulerWorkerStack_Pop_def SchedulerWorkerStack_Peek_def SchedulerWorkerStack_Remove_def
  SchedulerWorkerStack_Size_def SchedulerWorkerStack_IsEmpty_def

lemma Create_started:
  "length (workers s) < worker_capacity s \<Longrightarrow>
   CreateRegisterAndStartSchedulerWorker True s = Inr (Some (next_worker s), created s)"
  by (simp add: CreateRegisterAndStartSchedulerWorker_def created_def Let_def split: list.splits)

lemma Create_not_started:
  "length (workers s) < worker_capacity s \<Longrightarrow>
   CreateRegisterAndStartSchedulerWorker False s = Inr (None, s)"
  by (simp add: CreateRegisterAndStartSchedulerWorker_def)

lemma created_fields [simp]:
  "workers (created s) = workers s @ [next_worker s]"
  "idle_workers_stack (created s) = idle_workers_stack s"
  "worker_capacity (created s) = worker_capacity s"
  "next_worker (created s) = Suc (next_worker s)"
  "delegate (created s) = (delegate s)(next_worker s := new_delegate)"
  "woken (created s) = woken s"
  "num_wake_ups_before_start (created s) = num_wake_ups_before_start s"
  "shared_priority_queue (created s) = shared_priority_queue s"
  "worker_cleanup_disallowed (created s) = worker_cleanup_disallowed s"
  by (simp_all add: created_def Let_def split: list.splits)

lemma Unset_ok:
  "is_on_idle_workers_stack (delegate s w) \<Longrightarrow> w \<notin> set (idle_workers_stack s) \<Longrightarrow>
   UnsetIsOnIdleWorkersStack w s = Inr (set_idle_flag w False s)"
  by (simp add: UnsetIsOnIdleWorkersStack_def set_idle_flag_def stack_defs)

lemma woke_fields [simp]:
  "workers (woke w s) = workers s"
  "idle_workers_stack (woke w s) = idle_workers_stack s"
  "worker_capacity (woke w s) = worker_capacity s"
  "next_worker (woke w s) = next_worker s"
  "is_on_idle_workers_stack (delegate (woke w s) v)
     = (v \<noteq> w \<and> is_on_idle_workers_stack (delegate s v))"
  "woken (woke w s) = woken s @ [w]"
  "num_wake_ups_before_start (woke w s) = num_wake_ups_before_start s"
  by (simp_all add: woke_def WakeUp_def set_idle_flag_def)

lemma same_idle_stack:
  assumes "idle_workers_stack s = st"
  shows "s\<lparr>idle_workers_stack := st\<rparr> = s"
proof -
  have "s\<lparr>idle_workers_stack := idle_workers_stack s\<rparr> = s" by simp
  with assms show ?thesis by simp
qed

subsection \<open>The invariant\<close>

lemma pool_inv_cong:
  assumes "workers s' = workers s" "idle_workers_stack s' = idle_workers_stack s"
    "worker_capacity s' = worker_capacity s" "next_worker s' = next_worker s"
    "num_wake_ups_before_start s' = num_wake_ups_before_start s"
    "\<And>w. is_on_idle_workers_stack (delegate s' w) = is_on_idle_workers_stack (delegate s w)"
  shows "pool_inv s' = pool_inv s"
  by (simp add: pool_inv_def assms)

lemma pool_inv_new_pool: "pool_inv new_pool"
  by (simp add: pool_inv_def new_pool_def)

lemma pool_inv_created_woke:
  assumes "pool_inv s" "length (workers s) < worker_capacity s"
  shows "pool_inv (woke (next_worker s) (created s))"
  using assms unfolding pool_inv_def
  by (auto simp: new_delegate_def less_SucI)

lemma pool_inv_created_idle:
  assumes "pool_inv s" "length (workers s) < worker_capacity s"
  shows "pool_inv ((created s)\<lparr>idle_workers_stack := next_worker s # idle_workers_stack s\<rparr>)"
  using assms unfolding pool_inv_def
  by (auto simp: new_delegate_def less_SucI)

lemma pool_inv_pop_woke:
  assumes "pool_inv s" "idle_workers_stack s = w # rest"
  shows "pool_inv (woke w (s\<lparr>idle_workers_stack := rest\<rparr>))"
  using assms unfolding pool_inv_def
  by auto

lemma pool_inv_keep_standby: "pool_inv s \<Longrightarrow> pool_inv (keep_standby b s)"
  using pool_inv_created_idle[of s] by (auto simp: keep_standby_def)

lemma pool_inv_pop_and_wake: "pool_inv s \<Longrightarrow> pool_inv (pop_and_wake s)"
  using pool_inv_pop_woke[of s] by (auto simp: pop_and_wake_def split: list.splits)

lemma pool_inv_create_and_wake:
  "pool_inv s \<Longrightarrow> length (workers s) < worker_capacity s \<Longrightarrow> pool_inv (create_and_wake b s)"
  using pool_inv_created_woke[of s] by (simp add: create_and_wake_def)

lemma pool_inv_cleaned: "pool_inv s \<Longrightarrow> pool_inv (cleaned w s)"
  unfolding pool_inv_def cleaned_def
  by (auto simp: length_remove1 intro: le_trans[OF diff_le_self])

lemma pool_inv_went_idle:
  assumes "pool_inv s" "worker \<in> set (workers s)"
    "\<not> is_on_idle_workers_stack (delegate s worker)"
  shows "pool_inv (went_idle worker s)"
  using assms unfolding pool_inv_def went_idle_def Let_def
  by auto

lemma pool_inv_start_worker:
  "pool_inv s \<Longrightarrow> length (workers s) < worker_capacity s \<Longrightarrow> pool_inv (start_worker index s)"
  by (simp add: start_worker_def pool_inv_created_woke pool_inv_created_idle)

lemma idle_room:
  assumes "pool_inv s" "worker \<in> set (workers s)" "worker \<notin> set (idle_workers_stack s)"
  shows "Suc (length (idle_workers_stack s)) \<le> length (workers s)"
proof -
  have d: "distinct (worker # idle_workers_stack s)"
    and "set (worker # idle_workers_stack s) \<subseteq> set (workers s)"
    using assms by (auto simp: pool_inv_def)
  then have "card (set (worker # idle_workers_stack s)) \<le> card (set (workers s))"
    by (intro card_mono) auto
  with d show ?thesis
    using card_length[of "workers s"] distinct_card[of "worker # idle_workers_stack s"]
    by simp
qed

lemma idle_fits:
  assumes "pool_inv s"
  shows "length (idle_workers_stack s) \<le> length (workers s)"
proof -
  have "card (set (idle_workers_stack s)) \<le> card (set (workers s))"
    using assms by (intro card_mono) (auto simp: pool_inv_def)
  moreover have "distinct (idle_workers_stack s)" using assms by (simp add: pool_inv_def)
  ultimately show ?thesis
    using card_length[of "workers s"] distinct_card[of "idle_workers_stack s"] by simp
qed

subsection \<open>WakeUpOneWorker\<close>

lemma standby_code:
  "(if SchedulerWorkerStack_IsEmpty (idle_workers_stack s3)
        \<and> length (workers s3) < worker_capacity s3
    then
      (case CreateRegisterAndStartSchedulerWorker started2 s3 of
         Inl e \<Rightarrow> Inl e
       | Inr (new_worker, s4) \<Rightarrow>
           (case new_worker of
              None \<Rightarrow> Inr s4
            | Some w \<Rightarrow>
                (case SchedulerWorkerStack_Push w (idle_workers_stack s4) of
                   Inl e \<Rightarrow> Inl e
                 | Inr st \<Rightarrow> Inr (s4\<lparr>idle_workers_stack := st\<rparr>))))
    else Inr s3) = Inr (keep_standby started2 s3)"
  by (cases started2) (simp_all add: keep_standby_def Create_started Create_not_started stack_defs)

lemma wake_code:
  assumes "pool_inv s"
  shows "(case (if SchedulerWorkerStack_IsEmpty (idle_workers_stack s)
                   \<and> length (workers s) < worker_capacity s
              then CreateRegisterAndStartSchedulerWorker started1 s
              else (case SchedulerWorkerStack_Pop (idle_workers_stack s) of
                      (w, st) \<Rightarrow> Inr (w, s\<lparr>idle_workers_stack := st\<rparr>))) of
          Inl e \<Rightarrow> Inl e
        | Inr (worker, s1) \<Rightarrow>
            (case (case worker of
                     None \<Rightarrow> Inr s1
                   | Some w \<Rightarrow>
                       (case UnsetIsOnIdleWorkersStack w s1 of
                          Inl e \<Rightarrow> Inl e
                        | Inr s2 \<Rightarrow> Inr (WakeUp w s2))) of
               Inl e \<Rightarrow> Inl e
             | Inr s3 \<Rightarrow> k s3))
      = k (if idle_workers_stack s = [] \<and> length (workers s) < worker_capacity s
           then create_and_wake started1 s else pop_and_wake s)"
proof (cases "idle_workers_stack s = [] \<and> length (workers s) < worker_capacity s")
  case True
  then show ?thesis
    by (cases started1)
       (simp_all add: create_and_wake_def Create_started Create_not_started stack_defs
          Unset_ok new_delegate_def woke_def)
next
  case False
  show ?thesis
  proof (cases "idle_workers_stack s")
    case Nil
    from False Nil show ?thesis
      by (simp add: stack_defs pop_and_wake_def same_idle_stack)
  next
    case (Cons w rest)
    from assms Cons have "w \<in> set (workers s)" "w \<notin> set rest"
      "is_on_idle_workers_stack (delegate s w)"
      by (auto simp: pool_inv_def)
    with Cons show ?thesis
      by (simp add: stack_defs pop_and_wake_def Unset_ok woke_def)
  qed
qed

lemma WakeUpOneWorker_steps:
  assumes "pool_inv s" "workers s \<noteq> []"
  shows "WakeUpOneWorker started1 started2 s =
     Inr (keep_standby started2
            (if idle_workers_stack s = [] \<and> length (workers s) < worker_capacity s
             then create_and_wake started1 s else pop_and_wake s))"
  unfolding WakeUpOneWorker_def using assms(2)
  by (simp only: if_False wake_code[OF assms(1)] standby_code)

lemma WakeUpOneWorker_before_start:
  "workers s = [] \<Longrightarrow>
   WakeUpOneWorker started1 started2 s =
     Inr (s\<lparr>num_wake_ups_before_start := num_wake_ups_before_start s + 1\<rparr>)"
  by (simp add: WakeUpOneWorker_def)

lemma WakeUpOneWorker_pool_inv:
  assumes "pool_inv s" "WakeUpOneWorker a b s = Inr s'"
  shows "pool_inv s'"
proof (cases "workers s = []")
  case True
  with assms show ?thesis by (auto simp: WakeUpOneWorker_before_start pool_inv_def)
next
  case False
  from assms(2) WakeUpOneWorker_steps[OF assms(1) False, of a b]
  show ?thesis
    using assms(1)
    by (auto simp: pool_inv_keep_standby pool_inv_pop_and_wake pool_inv_create_and_wake)
qed

subsection \<open>GetWork\<close>

lemma Cleanup_ok:
  "worker \<in> set (workers s) \<Longrightarrow> Cleanup worker s = Inr (cleaned worker s)"
  by (simp add: Cleanup_def cleaned_def RemoveFromIdleWorkersStack_def stack_defs)

lemma GetWork_timed_out:
  assumes "worker \<in> set (workers s)" "worker \<in> set (idle_workers_stack s)"
    "is_on_idle_workers_stack (delegate s worker)"
    "num_tasks_since_last_wait (delegate s worker) = 0"
  shows "GetWork worker s =
     Inr (None, timed_out (if CanCleanup worker s then cleaned worker s else s))"
  using assms
  by (simp add: GetWork_def ContainsWorker_def stack_defs Cleanup_ok timed_out_def cleaned_def)

lemma GetWork_went_idle:
  assumes "pool_inv s" "worker \<in> set (workers s)"
    "\<not> is_on_idle_workers_stack (delegate s worker)" "shared_priority_queue s = []"
  shows "GetWork worker s = Inr (None, went_idle worker s)"
proof -
  from assms have notin: "worker \<notin> set (idle_workers_stack s)" by (auto simp: pool_inv_def)
  from idle_room[OF assms(1,2) notin] assms notin show ?thesis
    by (auto simp: GetWork_def ContainsWorker_def stack_defs PriorityQueue_IsEmpty_def
        AddToIdleWorkersStack_def SetIsOnIdleWorkersStack_def went_idle_def Let_def)
qed

lemma GetWork_sequence:
  assumes "pool_inv s" "worker \<in> set (workers s)"
    "\<not> is_on_idle_workers_stack (delegate s worker)" "shared_priority_queue s = e # q"
  shows "GetWork worker s = Inr (Some (snd e), s\<lparr>shared_priority_queue := q\<rparr>)"
proof -
  from assms have notin: "worker \<notin> set (idle_workers_stack s)" by (auto simp: pool_inv_def)
  with assms show ?thesis
    by (simp add: GetWork_def ContainsWorker_def stack_defs PriorityQueue_IsEmpty_def
        PriorityQueue_PopSequence_def)
qed

lemma GetWork_InrD:
  assumes "GetWork worker s = Inr r"
  shows "worker \<in> set (workers s)"
    "is_on_idle_workers_stack (delegate s worker) = (worker \<in> set (idle_workers_stack s))"
    "is_on_idle_workers_stack (delegate s worker)
       \<Longrightarrow> num_tasks_since_last_wait (delegate s worker) = 0"
proof -
  show w: "worker \<in> set (workers s)" using assms
    by (simp add: GetWork_def ContainsWorker_def split: if_splits)
  show "is_on_idle_workers_stack (delegate s worker) = (worker \<in> set (idle_workers_stack s))"
    using assms
    by (simp add: GetWork_def ContainsWorker_def stack_defs split: if_splits)
  assume "is_on_idle_workers_stack (delegate s worker)"
  with assms w show "num_tasks_since_last_wait (delegate s worker) = 0"
    by (simp add: GetWork_def ContainsWorker_def stack_defs Cleanup_ok cleaned_def
          split: if_splits)
qed

lemma GetWork_after_timeout:
  assumes "GetWork worker s = Inr (sequence, s')"
    "is_on_idle_workers_stack (delegate s worker)"
  shows "sequence = None"
    "s' = timed_out (if CanCleanup worker s then cleaned worker s else s)"
proof -
  note D = GetWork_InrD[OF assms(1)]
  from D assms(2) have "GetWork worker s =
      Inr (None, timed_out (if CanCleanup worker s then cleaned worker s else s))"
    by (intro GetWork_timed_out) auto
  with assms(1) show "sequence = None"
    "s' = timed_out (if CanCleanup worker s then cleaned worker s else s)"
    by simp_all
qed

lemma pool_inv_timed_out: "pool_inv (timed_out x) = pool_inv x"
  by (rule pool_inv_cong) (simp_all add: timed_out_def)

lemma GetWork_pool_inv:
  assumes "pool_inv s" "GetWork worker s = Inr (r, s')"
  shows "pool_inv s'"
proof -
  note D = GetWork_InrD[OF assms(2)]
  show ?thesis
  proof (cases "is_on_idle_workers_stack (delegate s worker)")
    case True
    from GetWork_after_timeout(2)[OF assms(2) True] assms(1)
    show ?thesis by (simp add: pool_inv_timed_out pool_inv_cleaned)
  next
    case False
    show ?thesis
    proof (cases "shared_priority_queue s")
      case Nil
      from GetWork_went_idle[OF assms(1) D(1) False Nil] assms(2)
      show ?thesis using pool_inv_went_idle[OF assms(1) D(1) False] by simp
    next
      case (Cons e q)
      from GetWork_sequence[OF assms(1) D(1) False Cons] assms
      show ?thesis by (auto simp: pool_inv_def)
    qed
  qed
qed

subsection \<open>Start\<close>

declare Start_loop.simps [simp del]

lemma static_cast_int_le: "static_cast_int k \<le> int k"
proof -
  have "int k mod 2 ^ 32 \<le> int k" by (rule zmod_le_nonneg_dividend) simp
  moreover have "int k mod 2 ^ 32 - 2 ^ 32 \<le> int k mod 2 ^ 32" by simp
  ultimately show ?thesis by (auto simp: static_cast_int_def Let_def)
qed

lemma static_cast_int_size_t:
  assumes "0 \<le> c" "c < 2 ^ 31"
  shows "static_cast_int (size_t_of_int c) = c"
proof -
  from assms have "c mod 2 ^ 64 = c" by (intro mod_pos_pos_trivial) auto
  moreover from assms have "c mod 2 ^ 32 = c" by (intro mod_pos_pos_trivial) auto
  ultimately show ?thesis using assms by (simp add: static_cast_int_def size_t_of_int_def)
qed

lemma start_worker_fields [simp]:
  "workers (start_worker index s) = workers s @ [next_worker s]"
  "worker_capacity (start_worker index s) = worker_capacity s"
  "num_wake_ups_before_start (start_worker index s) = num_wake_ups_before_start s"
  "next_worker (start_worker index s) = Suc (next_worker s)"
  by (simp_all add: start_worker_def)

lemma Start_loop_done: "\<not> index < n \<Longrightarrow> Start_loop started index n s = Inr s"
  by (subst Start_loop.simps) simp

lemma Start_loop_step:
  assumes "pool_inv s" "index < n" "length (workers s) < worker_capacity s"
  shows "Start_loop started index n s =
     (if started (nat index) then Start_loop started (index + 1) n (start_worker index s)
      else if index > 0 then Start_loop started (index + 1) n s
      else Inl CHECK_failed)"
proof -
  from assms(1) have fresh: "next_worker s \<notin> set (idle_workers_stack s)"
    by (auto simp: pool_inv_def)
  show ?thesis
  proof (cases "started (nat index)")
    case True
    with assms fresh show ?thesis
      by (subst Start_loop.simps)
         (simp add: Create_started Unset_ok new_delegate_def start_worker_def woke_def
            stack_defs AssertIsOnIdleWorkersStack_def)
  next
    case False
    with assms show ?thesis
      by (subst Start_loop.simps) (simp add: Create_not_started)
  qed
qed

lemma Start_loop_full:
  assumes "index < n" "\<not> length (workers s) < worker_capacity s"
  shows "Start_loop started index n s = Inl DCHECK_failed"
  using assms
  by (subst Start_loop.simps) (simp add: CreateRegisterAndStartSchedulerWorker_def)

lemma Start_loop_pool_inv:
  assumes "pool_inv s" "Start_loop started index n s = Inr s'"
  shows "pool_inv s'"
  using assms
proof (induction "nat (n - index)" arbitrary: index s)
  case 0
  then have "\<not> index < n" by simp
  with 0 show ?case by (simp add: Start_loop_done)
next
  case (Suc k)
  then have lt: "index < n" by linarith
  have k: "k = nat (n - (index + 1))" using Suc.hyps(2) by linarith
  show ?case
  proof (cases "length (workers s) < worker_capacity s")
    case False
    with Suc.prems(2) lt show ?thesis by (simp add: Start_loop_full)
  next
    case True
    note step = Start_loop_step[OF Suc.prems(1) lt True, of started]
    show ?thesis
    proof (cases "started (nat index)")
      case st: True
      with step Suc.prems(2)
      have "Start_loop started (index + 1) n (start_worker index s) = Inr s'" by simp
      with Suc.hyps(1)[OF k pool_inv_start_worker[OF Suc.prems(1) True]] show ?thesis .
    next
      case st: False
      with step Suc.prems(2)
      have "Start_loop started (index + 1) n s = Inr s'" by (simp split: if_splits)
      with Suc.hyps(1)[OF k Suc.prems(1)] show ?thesis .
    qed
  qed
qed

lemma Start_loop_succeeds:
  assumes "pool_inv s" "0 < index" "n \<le> int (worker_capacity s)"
    "int (length (workers s)) \<le> index"
  shows "\<exists>s'. Start_loop started index n s = Inr s' \<and>
           length (workers s') = length (workers s) + length (filter started [nat index..<nat n])"
  using assms
proof (induction "nat (n - index)" arbitrary: index s)
  case 0
  then have "\<not> index < n" by simp
  moreover from this have "[nat index..<nat n] = []" by simp
  ultimately show ?case by (simp add: Start_loop_done)
next
  case (Suc k)
  then have lt: "index < n" by linarith
  with Suc.prems have room: "length (workers s) < worker_capacity s" by linarith
  have k: "k = nat (n - (index + 1))" using Suc.hyps(2) by linarith
  have up: "[nat index..<nat n] = nat index # [nat (index + 1)..<nat n]"
    using lt Suc.prems(2) by (simp add: upt_conv_Cons nat_add_distrib)
  note step = Start_loop_step[OF Suc.prems(1) lt room, of started]
  show ?case
  proof (cases "started (nat index)")
    case True
    have "\<exists>s'. Start_loop started (index + 1) n (start_worker index s) = Inr s' \<and>
           length (workers s') = length (workers (start_worker index s))
             + length (filter started [nat (index + 1)..<nat n])"
      using Suc.prems room
      by (intro Suc.hyps(1)[OF k]) (simp_all add: pool_inv_start_worker)
    with True step up show ?thesis by simp
  next
    case False
    have "\<exists>s'. Start_loop started (index + 1) n s = Inr s' \<and>
           length (workers s') = length (workers s)
             + length (filter started [nat (index + 1)..<nat n])"
      using Suc.prems by (intro Suc.hyps(1)[OF k]) simp_all
    with False step up Suc.prems(2) show ?thesis by simp
  qed
qed


lemma static_cast_int_range:
  "- (2 ^ 31) \<le> static_cast_int k \<and> static_cast_int k < 2 ^ 31"
proof -
  have "0 \<le> int k mod 2 ^ 32" "int k mod 2 ^ 32 < 2 ^ 32" by simp_all
  then show ?thesis by (auto simp: static_cast_int_def Let_def)
qed

lemma reserve_throws:
  assumes "- (2 ^ 31) \<le> n" "n < 2 ^ 31"
  shows "(vector_max_size < size_t_of_int n) = (n < 0)"
proof (cases "n < 0")
  case True
  with assms have "n mod 2 ^ 64 = n + 2 ^ 64"
    using mod_add_self2[of n "2 ^ 64"] mod_pos_pos_trivial[of "n + 2 ^ 64" "2 ^ 64"] by simp
  with True assms show ?thesis by (simp add: size_t_of_int_def vector_max_size_def)
next
  case False
  with assms have "n mod 2 ^ 64 = n" by (intro mod_pos_pos_trivial) auto
  with False assms show ?thesis by (simp add: size_t_of_int_def vector_max_size_def)
qed

lemma num_initial_workers_range:
  assumes "0 \<le> num_wake_ups_before_start s"
  shows "- (2 ^ 31) \<le> num_initial_workers params s" "num_initial_workers params s < 2 ^ 31"
  using assms static_cast_int_range[of "size_t_of_int (max_threads params)"]
  by (auto simp: num_initial_workers_def)

text \<open>The pool when \<open>Start\<close> enters its loop, and the two ways not to get there.\<close>

lemma Start_unfold:
  assumes "workers s = []" "0 \<le> num_wake_ups_before_start s"
    "num_wake_ups_before_start s < INT_MAX" "0 \<le> num_initial_workers params s"
  shows "Start params started s =
     Start_loop started 0 (num_initial_workers params s)
       (s\<lparr>worker_capacity := size_t_of_int (max_threads params),
          suggested_reclaim_time := params_suggested_reclaim_time params,
          backward_compatibility := params_backward_compatibility params\<rparr>)"
proof -
  from reserve_throws[OF num_initial_workers_range[OF assms(2), of params]] assms(4)
  have "\<not> vector_max_size < size_t_of_int (num_initial_workers params s)" by simp
  with assms(1,3) show ?thesis
    by (simp add: Start_def Let_def num_initial_workers_def)
qed

lemma Start_signed_overflow:
  assumes "workers s = []" "INT_MAX \<le> num_wake_ups_before_start s"
  shows "Start params started s = Inl signed_overflow"
  using assms by (simp add: Start_def Let_def)

lemma Start_length_error:
  assumes "workers s = []" "0 \<le> num_wake_ups_before_start s"
    "num_wake_ups_before_start s < INT_MAX" "num_initial_workers params s < 0"
  shows "Start params started s = Inl length_error"
proof -
  from reserve_throws[OF num_initial_workers_range[OF assms(2), of params]] assms(4)
  have "vector_max_size < size_t_of_int (num_initial_workers params s)" by simp
  with assms(1,3) show ?thesis
    by (simp add: Start_def Let_def num_initial_workers_def)
qed

lemma Start_InrD:
  assumes "Start params started s = Inr s'"
  shows "workers s = []"
    "Start_loop started 0 (num_initial_workers params s)
       (s\<lparr>worker_capacity := size_t_of_int (max_threads params),
          suggested_reclaim_time := params_suggested_reclaim_time params,
          backward_compatibility := params_backward_compatibility params\<rparr>) = Inr s'"
  using assms by (simp_all add: Start_def Let_def num_initial_workers_def split: if_splits)

lemma pool_inv_Start_entry:
  assumes "pool_inv s" "workers s = []"
  shows "pool_inv (s\<lparr>worker_capacity := c, suggested_reclaim_time := r,
                     backward_compatibility := b\<rparr>)"
  using assms by (auto simp: pool_inv_def)

lemma Start_pool_inv:
  assumes "pool_inv s" "Start params started s = Inr s'"
  shows "pool_inv s'"
  using Start_InrD[OF assms(2)] Start_loop_pool_inv[OF pool_inv_Start_entry[OF assms(1)]]
  by blast

subsection \<open>Executions\<close>

lemma run_op_pool_inv:
  assumes "pool_inv s" "run_op x s = Inr s'"
  shows "pool_inv s'"
proof (cases x)
  case (Op_Start params started)
  with assms show ?thesis by (auto intro: Start_pool_inv)
next
  case (Op_ScheduleSequence sequence a b)
  have "pool_inv (ReEnqueueSequence sequence s) = pool_inv s"
    by (rule pool_inv_cong) (simp_all add: ReEnqueueSequence_def)
  with assms Op_ScheduleSequence show ?thesis
    by (auto simp: ScheduleSequence_def ReEnqueueSequence_def Let_def
          intro: WakeUpOneWorker_pool_inv)
next
  case (Op_WakeUpOneWorker a b)
  with assms show ?thesis by (auto intro: WakeUpOneWorker_pool_inv)
next
  case (Op_GetWork worker)
  with assms show ?thesis by (auto split: sum.splits intro: GetWork_pool_inv)
next
  case (Op_ReEnqueueSequence sequence)
  have "pool_inv (ReEnqueueSequence sequence s) = pool_inv s"
    by (rule pool_inv_cong) (simp_all add: ReEnqueueSequence_def)
  with assms Op_ReEnqueueSequence show ?thesis by auto
next
  case (Op_DidRunTask worker)
  have "pool_inv (DidRunTask worker s) = pool_inv s"
    by (rule pool_inv_cong) (simp_all add: DidRunTask_def)
  with assms Op_DidRunTask show ?thesis by auto
next
  case Op_DisallowWorkerCleanupForTesting
  have "pool_inv (DisallowWorkerCleanupForTesting s) = pool_inv s"
    by (rule pool_inv_cong) (simp_all add: DisallowWorkerCleanupForTesting_def)
  with assms Op_DisallowWorkerCleanupForTesting show ?thesis by auto
next
  case (Op_AdvanceClock d)
  have "pool_inv (s\<lparr>clock := clock s + int d\<rparr>) = pool_inv s"
    by (rule pool_inv_cong) simp_all
  with assms Op_AdvanceClock show ?thesis by auto
qed

lemma run_ops_pool_inv:
  "pool_inv s \<Longrightarrow> run_ops xs s = Inr s' \<Longrightarrow> pool_inv s'"
proof (induction xs arbitrary: s)
  case Nil
  then show ?case by simp
next
  case (Cons x xs)
  then show ?case by (auto split: sum.splits dest: run_op_pool_inv)
qed

lemma run_ops_append:
  "run_ops (xs @ ys) s = (case run_ops xs s of Inl e \<Rightarrow> Inl e | Inr s1 \<Rightarrow> run_ops ys s1)"
  by (induction xs arbitrary: s) (auto split: sum.splits)

lemma run_ops_prefix:
  assumes "run_ops xs s = Inr s'"
  shows "\<exists>s1. run_ops (take k xs) s = Inr s1"
proof -
  have "run_ops (take k xs @ drop k xs) s = Inr s'" using assms by simp
  then show ?thesis unfolding run_ops_append by (auto split: sum.splits)
qed

subsection \<open>Running the model\<close>

lemmas pool_code = WakeUpOneWorker_def ScheduleSequence_def GetWork_def Start_def
  Start_loop.simps CreateRegisterAndStartSchedulerWorker_def UnsetIsOnIdleWorkersStack_def
  SetIsOnIdleWorkersStack_def AssertIsOnIdleWorkersStack_def AddToIdleWorkersStack_def
  Cleanup_def CanCleanup_def PeekAtIdleWorkersStack_def RemoveFromIdleWorkersStack_def
  CanWorkerCleanupForTesting_def ReEnqueueSequence_def WakeUp_def ContainsWorker_def
  PriorityQueue_Push_def PriorityQueue_IsEmpty_def PriorityQueue_PopSequence_def
  stack_defs size_t_of_int_def static_cast_int_def INT_MAX_def vector_max_size_def
  new_delegate_def Let_def

lemma example_run_result:
  "\<exists>s. run_ops example_run new_pool = Inr s \<and> workers s = [0, 1, 2]
     \<and> idle_workers_stack s = [2] \<and> woken s = [0, 1, 0] \<and> worker_capacity s = 4"
  by (simp add: example_run_def new_pool_def params_four_def sequence_one_def pool_code)

lemma pool_inv_three_idle: "pool_inv pool_three_idle"
  by (simp add: pool_inv_def pool_three_idle_def new_pool_def new_delegate_def)

lemma pool_inv_two_early_wake_ups: "pool_inv pool_two_early_wake_ups"
  by (simp add: pool_inv_def pool_two_early_wake_ups_def new_pool_def)

lemma PriorityQueue_insert_set: "set (PriorityQueue_insert e q) = insert e (set q)"
  by (induction q) auto

section \<open>The claims about the worker pool\<close>

text \<open>
  C1. The pool starts as its constructor leaves it. After each operation of every sequence
  of operations that runs through (no \<open>CHECK\<close> or \<open>DCHECK\<close> ends the process), the idle
  workers stack holds only workers of the workers list, and
  \<open>idle_workers_stack_.Size() \<le> workers_.size() \<le> worker_capacity_\<close>.
\<close>

theorem idle_stack_within_workers_within_capacity:
  assumes "run_ops ops new_pool = Inr s"
  shows "\<forall>k \<le> length ops. \<exists>s_k. run_ops (take k ops) new_pool = Inr s_k
           \<and> set (idle_workers_stack s_k) \<subseteq> set (workers s_k)
           \<and> SchedulerWorkerStack_Size (idle_workers_stack s_k) \<le> length (workers s_k)
           \<and> length (workers s_k) \<le> worker_capacity s_k"
proof (intro allI impI)
  fix k
  from run_ops_prefix[OF assms, of k]
  obtain s_k where run: "run_ops (take k ops) new_pool = Inr s_k" by blast
  from run_ops_pool_inv[OF pool_inv_new_pool run] have inv: "pool_inv s_k" .
  then have "set (idle_workers_stack s_k) \<subseteq> set (workers s_k)"
    "length (workers s_k) \<le> worker_capacity s_k"
    by (simp_all add: pool_inv_def)
  with run idle_fits[OF inv]
  show "\<exists>s_k. run_ops (take k ops) new_pool = Inr s_k
           \<and> set (idle_workers_stack s_k) \<subseteq> set (workers s_k)
           \<and> SchedulerWorkerStack_Size (idle_workers_stack s_k) \<le> length (workers s_k)
           \<and> length (workers s_k) \<le> worker_capacity s_k"
    by (auto simp: SchedulerWorkerStack_Size_def)
qed

theorem idle_stack_within_workers_within_capacity_witness:
  "\<exists>s. run_ops example_run new_pool = Inr s
     \<and> workers s = [0, 1, 2] \<and> idle_workers_stack s = [2] \<and> worker_capacity s = 4
     \<and> (\<forall>k \<le> length example_run. \<exists>s_k. run_ops (take k example_run) new_pool = Inr s_k
           \<and> set (idle_workers_stack s_k) \<subseteq> set (workers s_k)
           \<and> SchedulerWorkerStack_Size (idle_workers_stack s_k) \<le> length (workers s_k)
           \<and> length (workers s_k) \<le> worker_capacity s_k)"
proof -
  from example_run_result obtain s where s: "run_ops example_run new_pool = Inr s"
    "workers s = [0, 1, 2]" "idle_workers_stack s = [2]" "worker_capacity s = 4"
    by blast
  from idle_stack_within_workers_within_capacity[OF s(1)] s show ?thesis by blast
qed

text \<open>
  C2. A worker that enters \<open>GetWork\<close> marked idle (its wait timed out) gets no work. It is
  cleaned up, that is, removed from the idle stack and from the workers list, only if it
  is not the only idle worker and cleanup is permitted; after a cleanup the idle stack is
  not empty. When cleanup is refused, the pool is left as it was, but for the sample that
  \<open>GetWork\<close> adds to the histogram of tasks between waits.
\<close>

theorem GetWork_cleanup_after_timeout:
  assumes "pool_inv s" "is_on_idle_workers_stack (delegate s worker)"
    "GetWork worker s = Inr (sequence, s')"
  shows "sequence = None
     \<and> (worker \<notin> set (workers s') \<longrightarrow>
          1 < length (idle_workers_stack s) \<and> \<not> worker_cleanup_disallowed s)
     \<and> (if CanCleanup worker s
        then workers s' = remove1 worker (workers s)
           \<and> idle_workers_stack s' = remove1 worker (idle_workers_stack s)
           \<and> worker \<notin> set (workers s') \<and> worker \<notin> set (idle_workers_stack s')
           \<and> cleaned_up s' = cleaned_up s @ [worker]
           \<and> idle_workers_stack s' \<noteq> []
        else s' = s\<lparr>num_tasks_between_waits_histogram :=
                      num_tasks_between_waits_histogram s @ [0]\<rparr>)"
proof -
  note D = GetWork_InrD[OF assms(3)]
  note R = GetWork_after_timeout[OF assms(3,2)]
  from D assms(2) have idle: "worker \<in> set (idle_workers_stack s)" by simp
  from assms(1) have dist: "distinct (workers s)" "distinct (idle_workers_stack s)"
    by (simp_all add: pool_inv_def)
  show ?thesis
  proof (cases "CanCleanup worker s")
    case False
    with R D(1) show ?thesis by (simp add: timed_out_def)
  next
    case True
    then obtain top rest where st: "idle_workers_stack s = top # rest" "top \<noteq> worker"
      and allowed: "\<not> worker_cleanup_disallowed s"
      using idle
      by (cases "idle_workers_stack s")
         (auto simp: CanCleanup_def PeekAtIdleWorkersStack_def SchedulerWorkerStack_Peek_def
            CanWorkerCleanupForTesting_def)
    with idle have "rest \<noteq> []" by auto
    with st have two: "1 < length (idle_workers_stack s)" by (cases rest) auto
    from True R have s': "s' = timed_out (cleaned worker s)" by simp
    have "top \<in> set (remove1 worker (idle_workers_stack s))" using st by simp
    then have "remove1 worker (idle_workers_stack s) \<noteq> []" by auto
    with True R(1) two allowed dist show ?thesis
      unfolding s' by (simp add: timed_out_def cleaned_def)
  qed
qed

theorem GetWork_cleanup_after_timeout_witness:
  "pool_inv pool_three_idle
   \<and> is_on_idle_workers_stack (delegate pool_three_idle 0)
   \<and> GetWork 0 pool_three_idle = Inr (None, timed_out (cleaned 0 pool_three_idle))
   \<and> CanCleanup 0 pool_three_idle
   \<and> workers (timed_out (cleaned 0 pool_three_idle)) = [1, 2]
   \<and> idle_workers_stack (timed_out (cleaned 0 pool_three_idle)) = [2, 1]
   \<and> \<not> CanCleanup 2 pool_three_idle
   \<and> GetWork 2 pool_three_idle = Inr (None, timed_out pool_three_idle)"
proof -
  have a: "is_on_idle_workers_stack (delegate pool_three_idle 0)"
    "is_on_idle_workers_stack (delegate pool_three_idle 2)"
    by (simp_all add: pool_three_idle_def new_pool_def new_delegate_def)
  have c: "CanCleanup 0 pool_three_idle" "\<not> CanCleanup 2 pool_three_idle"
    by (simp_all add: pool_three_idle_def new_pool_def CanCleanup_def
          PeekAtIdleWorkersStack_def SchedulerWorkerStack_Peek_def
          CanWorkerCleanupForTesting_def)
  have g0: "GetWork 0 pool_three_idle = Inr (None, timed_out (cleaned 0 pool_three_idle))"
    using c(1)
    by (subst GetWork_timed_out)
       (simp_all add: pool_three_idle_def new_pool_def new_delegate_def)
  have g2: "GetWork 2 pool_three_idle = Inr (None, timed_out pool_three_idle)"
    using c(2)
    by (subst GetWork_timed_out)
       (simp_all add: pool_three_idle_def new_pool_def new_delegate_def)
  from GetWork_cleanup_after_timeout[OF pool_inv_three_idle a(1) g0]
       GetWork_cleanup_after_timeout[OF pool_inv_three_idle a(2) g2]
  show ?thesis using pool_inv_three_idle a c g0 g2
    by (simp add: pool_three_idle_def new_pool_def)
qed





text \<open>
  C5. \<open>Start\<close> on a pool without workers ends in a failed \<open>CHECK\<close> exactly when the
  first worker (index 0) is to be created and its thread does not start. When \<open>Start\<close>
  gets to its loop and the first thread starts (or there is no worker to create), it
  returns, whatever threads fail to start later, and the pool holds as many workers as
  threads did start, which may be fewer than it set out to create. \<open>Start\<close> does not
  get to its loop when the count of early wake-ups plus one is no \<open>int\<close> or when the
  number of workers to create is negative, which no \<open>max_threads\<close> from 0 on makes it;
  neither is a failed \<open>CHECK\<close>.
\<close>

theorem Start_CHECK_first_worker_only:
  assumes "pool_inv s" "workers s = []"
  shows "(Start params started s = Inl CHECK_failed
            \<longleftrightarrow> num_wake_ups_before_start s < INT_MAX
                \<and> 0 < num_initial_workers params s \<and> \<not> started 0)
     \<and> (num_wake_ups_before_start s < INT_MAX \<and> 0 \<le> num_initial_workers params s
          \<and> (0 < num_initial_workers params s \<longrightarrow> started 0) \<longrightarrow>
          (\<exists>s'. Start params started s = Inr s'
             \<and> length (workers s')
                 = length (filter started [0..<nat (num_initial_workers params s)])
             \<and> length (workers s') \<le> nat (num_initial_workers params s)))
     \<and> (INT_MAX \<le> num_wake_ups_before_start s \<longrightarrow>
          Start params started s = Inl signed_overflow)
     \<and> (num_wake_ups_before_start s < INT_MAX \<and> num_initial_workers params s < 0 \<longrightarrow>
          Start params started s = Inl length_error)
     \<and> (0 \<le> max_threads params \<and> max_threads params \<le> INT_MAX \<longrightarrow>
          0 \<le> num_initial_workers params s)"
proof -
  let ?s1 = "s\<lparr>worker_capacity := size_t_of_int (max_threads params),
                suggested_reclaim_time := params_suggested_reclaim_time params,
                backward_compatibility := params_backward_compatibility params\<rparr>"
  let ?n = "num_initial_workers params s"
  let ?p = "num_wake_ups_before_start s"
  have p0: "0 \<le> ?p" using assms(1) by (simp add: pool_inv_def)
  have inv1: "pool_inv ?s1" by (rule pool_inv_Start_entry[OF assms(1,2)])
  have cap: "?n \<le> int (worker_capacity ?s1)"
    using static_cast_int_le[of "size_t_of_int (max_threads params)"]
    by (simp add: num_initial_workers_def)
  have count: "length (filter started [0..<nat ?n]) \<le> nat ?n"
    using length_filter_le[of started "[0..<nat ?n]"] by simp
  have range: "0 \<le> ?n" if "0 \<le> max_threads params" "max_threads params \<le> INT_MAX"
    using that p0 static_cast_int_size_t[of "max_threads params"]
    by (simp add: num_initial_workers_def INT_MAX_def)
  show ?thesis
  proof (cases "?p < INT_MAX")
    case False
    with Start_signed_overflow[OF assms(2), of params started] range show ?thesis by simp
  next
    case p: True
    show ?thesis
    proof (cases "0 \<le> ?n")
      case False
      with Start_length_error[OF assms(2) p0 p, of params started] p range show ?thesis
        by auto
    next
      case n0: True
      note unfold = Start_unfold[OF assms(2) p0 p n0, of started]
      show ?thesis
      proof (cases "0 < ?n")
        case False
        then have "Start_loop started 0 ?n ?s1 = Inr ?s1" by (simp add: Start_loop_done)
        with False assms(2) p n0 show ?thesis unfolding unfold by simp
      next
        case True
        with cap assms(2) have room: "length (workers ?s1) < worker_capacity ?s1" by simp
        note step = Start_loop_step[OF inv1 True room, of started]
        have up: "[0..<nat ?n] = 0 # [1..<nat ?n]" using True by (simp add: upt_conv_Cons)
        show ?thesis
        proof (cases "started 0")
          case False
          with step True p show ?thesis unfolding unfold by simp
        next
          case st: True
          from Start_loop_succeeds[OF pool_inv_start_worker[OF inv1 room], of 1 ?n 0 started]
            cap assms(2)
          obtain s' where "Start_loop started 1 ?n (start_worker 0 ?s1) = Inr s'"
            "length (workers s') = 1 + length (filter started [1..<nat ?n])"
            by auto
          with st step up count p n0 show ?thesis unfolding unfold by simp
        qed
      qed
    qed
  qed
qed

theorem Start_CHECK_first_worker_only_witness:
  "pool_inv pool_two_early_wake_ups \<and> workers pool_two_early_wake_ups = []
   \<and> num_wake_ups_before_start pool_two_early_wake_ups < INT_MAX
   \<and> num_initial_workers params_four pool_two_early_wake_ups = 3
   \<and> Start params_four (\<lambda>index. False) pool_two_early_wake_ups = Inl CHECK_failed
   \<and> (\<exists>s'. Start params_four (\<lambda>index. index \<noteq> 1) pool_two_early_wake_ups = Inr s'
         \<and> length (workers s') = 2)
   \<and> num_initial_workers params_minus_one pool_two_early_wake_ups = - 1
   \<and> Start params_minus_one (\<lambda>index. True) pool_two_early_wake_ups = Inl length_error"
proof -
  have h: "workers pool_two_early_wake_ups = []"
    "num_wake_ups_before_start pool_two_early_wake_ups < INT_MAX"
    by (simp_all add: pool_two_early_wake_ups_def new_pool_def INT_MAX_def)
  have n: "num_initial_workers params_four pool_two_early_wake_ups = 3"
    "num_initial_workers params_minus_one pool_two_early_wake_ups = - 1"
    by (simp_all add: num_initial_workers_def pool_two_early_wake_ups_def new_pool_def
          params_four_def params_minus_one_def size_t_of_int_def static_cast_int_def)
  have f: "filter (\<lambda>index. index \<noteq> Suc 0) [0..<3] = [0, 2]"
    by (simp add: upt_conv_Cons)
  from Start_CHECK_first_worker_only[OF pool_inv_two_early_wake_ups h(1),
         of params_four "\<lambda>index. False"]
       Start_CHECK_first_worker_only[OF pool_inv_two_early_wake_ups h(1),
         of params_four "\<lambda>index. index \<noteq> 1"]
       Start_CHECK_first_worker_only[OF pool_inv_two_early_wake_ups h(1),
         of params_minus_one "\<lambda>index. True"]
  show ?thesis using pool_inv_two_early_wake_ups h n f by auto
qed

text \<open>
  C6. \<open>ReEnqueueSequence\<close> puts the sequence into the shared priority queue under its
  sort key and does nothing else: the queue gains that entry, and the idle stack, the
  workers list, the count of early wake-ups and the woken workers stay as they are.
  \<open>ScheduleSequence\<close> does the same push and then calls \<open>WakeUpOneWorker\<close>.
\<close>

theorem ReEnqueueSequence_wakes_no_worker:
  "ReEnqueueSequence sequence s
     = s\<lparr>shared_priority_queue :=
           PriorityQueue_Push sequence (GetSortKey sequence) (shared_priority_queue s)\<rparr>
   \<and> set (shared_priority_queue (ReEnqueueSequence sequence s))
       = insert (GetSortKey sequence, sequence) (set (shared_priority_queue s))
   \<and> idle_workers_stack (ReEnqueueSequence sequence s) = idle_workers_stack s
   \<and> workers (ReEnqueueSequence sequence s) = workers s
   \<and> num_wake_ups_before_start (ReEnqueueSequence sequence s) = num_wake_ups_before_start s
   \<and> woken (ReEnqueueSequence sequence s) = woken s
   \<and> ScheduleSequence sequence started1 started2 s
       = WakeUpOneWorker started1 started2 (ReEnqueueSequence sequence s)"
  by (simp add: ReEnqueueSequence_def ScheduleSequence_def PriorityQueue_Push_def
        PriorityQueue_insert_set Let_def)

text \<open>
  C10. With workers in the workers list, an empty idle stack and the pool at capacity,
  \<open>WakeUpOneWorker\<close> wakes no worker and creates none: it returns the pool as it was.
  \<open>ScheduleSequence\<close> then only queues its sequence.
\<close>

theorem WakeUpOneWorker_at_capacity_changes_nothing:
  assumes "workers s \<noteq> []" "idle_workers_stack s = []"
    "length (workers s) = worker_capacity s"
  shows "WakeUpOneWorker started1 started2 s = Inr s
     \<and> ScheduleSequence sequence started1 started2 s
         = Inr (s\<lparr>shared_priority_queue :=
                    PriorityQueue_Push sequence (GetSortKey sequence)
                      (shared_priority_queue s)\<rparr>)"
proof -
  have "WakeUpOneWorker started1 started2 s' = Inr s'"
    if "workers s' \<noteq> []" "idle_workers_stack s' = []"
      "length (workers s') = worker_capacity s'" for s'
    using that by (simp add: WakeUpOneWorker_def stack_defs same_idle_stack)
  from this[of s] this[of "s\<lparr>shared_priority_queue :=
      PriorityQueue_Push sequence (GetSortKey sequence) (shared_priority_queue s)\<rparr>"] assms
  show ?thesis by (simp add: ScheduleSequence_def Let_def)
qed

theorem WakeUpOneWorker_at_capacity_changes_nothing_witness:
  "workers pool_full \<noteq> [] \<and> idle_workers_stack pool_full = []
   \<and> length (workers pool_full) = worker_capacity pool_full
   \<and> WakeUpOneWorker True True pool_full = Inr pool_full
   \<and> woken pool_full = []"
proof -
  have h: "workers pool_full \<noteq> []" "idle_workers_stack pool_full = []"
    "length (workers pool_full) = worker_capacity pool_full" "woken pool_full = []"
    by (simp_all add: pool_full_def new_pool_def)
  from WakeUpOneWorker_at_capacity_changes_nothing[OF h(1,2,3), of True True sequence_one] h
  show ?thesis by simp
qed

section \<open>Properties of the thread controller\<close>

declare DoWork_loop.simps [simp del]

lemma length_UpdateState [simp]: "length (UpdateState st t) = length t"
  by (simp add: UpdateState_def split: list.splits)

lemma tasks_run_simps [simp]:
  "tasks_run [] = []" "tasks_run (Some t # sel) = t # tasks_run sel"
  "tasks_run (None # sel) = tasks_run sel"
  by (simp_all add: tasks_run_def)

lemma task_frame [simp]:
  "work_batch_size (after_task S s) = work_batch_size s"
  "work_batch_size (before_task src s) = work_batch_size s"
  "num_run_levels (run_level_tracker (after_task S s)) = num_run_levels (run_level_tracker s)"
  "num_run_levels (run_level_tracker (before_task src s)) = num_run_levels (run_level_tracker s)"
  by (simp_all add: after_task_def before_task_def num_run_levels_def OnTaskEnded_def
        OnTaskStarted_def)

lemma DoWork_loop_cases:
  assumes "DoWork_loop S RunTask i s = Inr (selected, r)"
  obtains
    (batch_done) "\<not> i < sint (work_batch_size s)" "selected = []" "r = Some s"
  | (no_task) src src1 where "i < sint (work_batch_size s)" "tc_sequence s = Some src"
      "SelectNextTask S src = (None, src1)" "selected = [None]"
      "r = Some (s\<lparr>tc_sequence := Some src1\<rparr>)"
  | (destroyed) src src1 task where "i < sint (work_batch_size s)" "tc_sequence s = Some src"
      "SelectNextTask S src = (Some task, src1)" "RunTask task (before_task src1 s) = None"
      "selected = [Some task]" "r = None"
  | (nested) src src1 task s3 where "i < sint (work_batch_size s)" "tc_sequence s = Some src"
      "SelectNextTask S src = (Some task, src1)" "RunTask task (before_task src1 s) = Some s3"
      "num_run_levels (run_level_tracker (after_task S s3)) > 1"
      "selected = [Some task]" "r = Some (after_task S s3)"
  | (continue) src src1 task s3 selected' where "i < sint (work_batch_size s)"
      "tc_sequence s = Some src"
      "SelectNextTask S src = (Some task, src1)" "RunTask task (before_task src1 s) = Some s3"
      "\<not> num_run_levels (run_level_tracker (after_task S s3)) > 1"
      "DoWork_loop S RunTask (i + 1) (after_task S s3) = Inr (selected', r)"
      "selected = Some task # selected'"
proof (cases "i < sint (work_batch_size s)")
  case False
  with assms batch_done show ?thesis by (subst (asm) DoWork_loop.simps) auto
next
  case True
  from assms True obtain src where src: "tc_sequence s = Some src"
    by (subst (asm) DoWork_loop.simps) (auto split: option.splits)
  obtain sel src1 where sel: "SelectNextTask S src = (sel, src1)" by force
  show ?thesis
  proof (cases sel)
    case None
    with assms True src sel no_task show ?thesis
      by (subst (asm) DoWork_loop.simps) auto
  next
    case (Some task)
    from assms True src sel Some have lv: "0 < num_run_levels (run_level_tracker s)"
      by (subst (asm) DoWork_loop.simps) (auto split: if_splits)
    show ?thesis
    proof (cases "RunTask task (before_task src1 s)")
      case None
      with assms True src sel Some lv destroyed show ?thesis
        by (subst (asm) DoWork_loop.simps) (auto simp: before_task_def)
    next
      case run: (Some s3)
      show ?thesis
      proof (cases "num_run_levels (run_level_tracker (after_task S s3)) > 1")
        case nest: True
        have "selected = [Some task] \<and> r = Some (after_task S s3)"
          using assms True src sel Some lv run nest
          by (subst (asm) DoWork_loop.simps) (auto simp: before_task_def after_task_def)
        with nested[OF True src _ run nest] sel Some show ?thesis by simp
      next
        case False
        have "\<exists>selected'. DoWork_loop S RunTask (i + 1) (after_task S s3) = Inr (selected', r)
                \<and> selected = Some task # selected'"
          using assms True src sel Some lv run False
          by (subst (asm) DoWork_loop.simps)
             (auto split: sum.splits simp: Let_def before_task_def after_task_def)
        with continue[OF True src _ run False] sel Some show ?thesis by auto
      qed
    qed
  qed
qed

lemma DoWork_loop_bound:
  assumes "\<And>task s1 s2. RunTask task s1 = Some s2 \<Longrightarrow> work_batch_size s2 = work_batch_size s1"
    and "DoWork_loop S RunTask i s = Inr (selected, r)"
  shows "i + int (length (tasks_run selected)) \<le> max i (sint (work_batch_size s))"
  using assms(2)
proof (induction selected arbitrary: i s)
  case Nil
  then show ?case by simp
next
  case (Cons x selected)
  from Cons.prems show ?case
  proof (cases rule: DoWork_loop_cases)
    case (continue src src1 task s3 selected')
    with Cons.IH[of "i + 1" "after_task S s3"] assms(1)[OF continue(4)]
    show ?thesis by simp
  qed auto
qed

lemma DoWork_loop_no_task_is_last:
  "DoWork_loop S RunTask i s = Inr (selected, r) \<Longrightarrow> None \<notin> set (butlast selected)"
proof (induction selected arbitrary: i s)
  case Nil
  then show ?case by simp
next
  case (Cons x selected)
  from Cons.prems show ?case
  proof (cases rule: DoWork_loop_cases)
    case (continue src src1 task s3 selected')
    with Cons.IH[of "i + 1" "after_task S s3"] show ?thesis by simp
  qed auto
qed

lemma DoWork_loop_nested:
  assumes "\<And>task s1 s2. RunTask task s1 = Some s2 \<Longrightarrow>
             num_run_levels (run_level_tracker s2) = num_run_levels (run_level_tracker s1)"
    and "DoWork_loop S RunTask i s = Inr (selected, r)"
    and "num_run_levels (run_level_tracker s) > 1"
  shows "length (tasks_run selected) \<le> 1"
  using assms(2)
proof (cases rule: DoWork_loop_cases)
  case (continue src src1 task s3 selected')
  with assms(1)[OF continue(4)] assms(3) show ?thesis by simp
qed auto

lemma DoWork_selected:
  assumes "DoWork D S RunTask now work_type s = Inr (selected, r)"
  shows "\<exists>r1. DoWork_loop S RunTask 0
                (s\<lparr>work_deduplicator := OnWorkStarted D (work_deduplicator s)\<rparr>)
              = Inr (selected, r1)"
  using assms by (auto simp: DoWork_def split: if_splits sum.splits option.splits)

lemmas controller_code = DoWork_def DoWork_loop.simps DoWork_after_loop_def ScheduleWork_def
  SetNextDelayedDoWork_def OnBeginNestedRunLoop_def PostImmediate_def PostDelayedCallback_def
  Cancel_def Reset_def num_run_levels_def OnRunLoopStarted_def OnTaskStarted_def
  OnTaskEnded_def OnIdle_def UpdateState_def is_null_def is_max_def TimeTicks_Max_def
  list_source_def quiet_task_def spec_deduplicator_def WorkDeduplicator_OnWorkRequested_def
  Let_def

section \<open>The claims about the thread controller\<close>

text \<open>
  C7. \<open>ScheduleWork\<close> posts the immediate \<open>DoWork\<close> task exactly when \<open>OnWorkRequested\<close>
  of the work deduplicator answers \<open>kScheduleImmediate\<close>, and posts nothing else. With
  the deduplicator of the spec idle, the first of two work requests posts the task and the
  second posts nothing.
\<close>

theorem ScheduleWork_posts_when_deduplicator_says_so:
  "posted (ScheduleWork D s)
     = (if fst (OnWorkRequested D (work_deduplicator s)) = kScheduleImmediate
        then posted s @ [PostTask kImmediate] else posted s)
   \<and> (OnWorkRequested D' = WorkDeduplicator_OnWorkRequested \<longrightarrow>
        work_deduplicator s' = Idle \<longrightarrow>
          posted (ScheduleWork D' s') = posted s' @ [PostTask kImmediate]
        \<and> posted (ScheduleWork D' (ScheduleWork D' s')) = posted s' @ [PostTask kImmediate])"
  by (auto simp: ScheduleWork_def PostImmediate_def Let_def
        WorkDeduplicator_OnWorkRequested_def split: prod.splits)

theorem ScheduleWork_posts_when_deduplicator_says_so_witness:
  "OnWorkRequested spec_deduplicator = WorkDeduplicator_OnWorkRequested
   \<and> work_deduplicator controller_three_tasks = Idle
   \<and> posted controller_three_tasks = []
   \<and> posted (ScheduleWork spec_deduplicator controller_three_tasks) = [PostTask kImmediate]
   \<and> posted (ScheduleWork spec_deduplicator
               (ScheduleWork spec_deduplicator controller_three_tasks))
       = [PostTask kImmediate]"
proof -
  have h: "OnWorkRequested spec_deduplicator = WorkDeduplicator_OnWorkRequested"
    "work_deduplicator controller_three_tasks = Idle" "posted controller_three_tasks = []"
    by (simp_all add: spec_deduplicator_def controller_three_tasks_def)
  from ScheduleWork_posts_when_deduplicator_says_so
         [of spec_deduplicator controller_three_tasks spec_deduplicator controller_three_tasks]
  show ?thesis using h by (simp add: WorkDeduplicator_OnWorkRequested_def)
qed

text \<open>
  C8. With the work batch size that \<open>DoWork\<close> finds on entry as the bound, the
  statement does not hold: the loop reads \<open>work_batch_size_\<close> anew before every task, and a
  task may change it. Entered with a work batch size of 1, \<open>DoWork\<close> runs three tasks
  when the first calls \<open>SetWorkBatchSize(3)\<close>.
\<close>

theorem DoWork_runs_more_than_the_batch_on_entry:
  "DoWork spec_deduplicator list_source batch_growing_task 0 kImmediate controller_batch_one
     = Inr ([Some 10, Some 11, Some 12], Some controller_batch_one_done)
   \<and> sint (work_batch_size controller_batch_one) = 1
   \<and> tasks_run [Some 10, Some 11, Some (12::nat)] = [10, 11, 12]
   \<and> \<not> int (length (tasks_run [Some 10, Some 11, Some (12::nat)]))
         \<le> max 0 (sint (work_batch_size controller_batch_one))"
  by (simp add: controller_batch_one_def controller_batch_one_done_def
        controller_three_tasks_def batch_growing_task_def SetWorkBatchSize_def
        controller_code)

text \<open>
  C8, amended. The loop of \<open>DoWork\<close> ends without a further task when its counter, the
  number of tasks run in this call, is not below the \<open>work_batch_size_\<close> of the moment;
  so one call of \<open>DoWork\<close> that returns runs at most \<open>work_batch_size_\<close> tasks when
  its tasks leave \<open>work_batch_size_\<close> as they found it. It asks for no further task
  once \<open>SelectNextTask\<close> gave none. It runs no further task after a task at whose end
  more than one run level is active; so a call entered with more than one run level (a
  nested run loop) runs at most one task when its tasks leave the number of run levels as
  they found it. \<open>OnBeginNestedRunLoop\<close> adds a run level and posts the immediate
  \<open>DoWork\<close> task whatever the deduplicator answers.
\<close>

theorem DoWork_runs_one_batch:
  assumes "DoWork D S RunTask now work_type s = Inr (selected, r)"
  shows "(\<forall>i s1. \<not> i < sint (work_batch_size s1) \<longrightarrow>
            DoWork_loop S RunTask i s1 = Inr ([], Some s1))
     \<and> ((\<forall>task s1 s2. RunTask task s1 = Some s2 \<longrightarrow>
            work_batch_size s2 = work_batch_size s1) \<longrightarrow>
          int (length (tasks_run selected)) \<le> max 0 (sint (work_batch_size s)))
     \<and> None \<notin> set (butlast selected)
     \<and> (\<forall>i s1 src src1 task s3.
            i < sint (work_batch_size s1) \<and> tc_sequence s1 = Some src
            \<and> SelectNextTask S src = (Some task, src1)
            \<and> 0 < num_run_levels (run_level_tracker s1)
            \<and> RunTask task (before_task src1 s1) = Some s3
            \<and> 1 < num_run_levels (run_level_tracker s3) \<longrightarrow>
            DoWork_loop S RunTask i s1 = Inr ([Some task], Some (after_task S s3)))
     \<and> ((\<forall>task s1 s2. RunTask task s1 = Some s2 \<longrightarrow>
            num_run_levels (run_level_tracker s2) = num_run_levels (run_level_tracker s1)) \<longrightarrow>
          1 < num_run_levels (run_level_tracker s) \<longrightarrow> length (tasks_run selected) \<le> 1)
     \<and> posted (OnBeginNestedRunLoop D' s') = posted s' @ [PostTask kImmediate]
     \<and> num_run_levels (run_level_tracker (OnBeginNestedRunLoop D' s'))
         = Suc (num_run_levels (run_level_tracker s'))"
proof -
  let ?s1 = "s\<lparr>work_deduplicator := OnWorkStarted D (work_deduplicator s)\<rparr>"
  from DoWork_selected[OF assms]
  obtain r1 where loop: "DoWork_loop S RunTask 0 ?s1 = Inr (selected, r1)" by blast
  have batch_end: "DoWork_loop S RunTask i s1 = Inr ([], Some s1)"
    if "\<not> i < sint (work_batch_size s1)" for i s1
    using that by (subst DoWork_loop.simps) simp
  have bound: "int (length (tasks_run selected)) \<le> max 0 (sint (work_batch_size s))"
    if "\<forall>task s1 s2. RunTask task s1 = Some s2 \<longrightarrow> work_batch_size s2 = work_batch_size s1"
    using DoWork_loop_bound[OF _ loop] that by simp
  have stop: "DoWork_loop S RunTask i s1 = Inr ([Some task], Some (after_task S s3))"
    if "i < sint (work_batch_size s1)" "tc_sequence s1 = Some src"
      "SelectNextTask S src = (Some task, src1)" "0 < num_run_levels (run_level_tracker s1)"
      "RunTask task (before_task src1 s1) = Some s3"
      "1 < num_run_levels (run_level_tracker s3)" for i s1 src src1 task s3
    using that
    by (subst DoWork_loop.simps)
       (simp add: before_task_def after_task_def num_run_levels_def OnTaskEnded_def)
  have nested: "length (tasks_run selected) \<le> 1"
    if "\<forall>task s1 s2. RunTask task s1 = Some s2 \<longrightarrow>
          num_run_levels (run_level_tracker s2) = num_run_levels (run_level_tracker s1)"
      "1 < num_run_levels (run_level_tracker s)"
    using DoWork_loop_nested[OF _ loop] that by simp
  have enter: "posted (OnBeginNestedRunLoop D' s') = posted s' @ [PostTask kImmediate]"
    "num_run_levels (run_level_tracker (OnBeginNestedRunLoop D' s'))
         = Suc (num_run_levels (run_level_tracker s'))"
    by (simp_all add: OnBeginNestedRunLoop_def PostImmediate_def Let_def num_run_levels_def
          OnRunLoopStarted_def)
  from batch_end bound stop nested enter DoWork_loop_no_task_is_last[OF loop]
  show ?thesis by blast
qed

theorem DoWork_runs_one_batch_witness:
  "(\<exists>r. DoWork spec_deduplicator list_source quiet_task 0 kImmediate controller_three_tasks
          = Inr ([Some 10, Some 11], r))
   \<and> sint (work_batch_size controller_three_tasks) = 2
   \<and> int (length (tasks_run [Some (10::nat), Some 11])) \<le> 2
   \<and> (\<exists>r. DoWork spec_deduplicator list_source quiet_task 0 kImmediate
            (OnBeginNestedRunLoop spec_deduplicator controller_three_tasks)
          = Inr ([Some 10], r))
   \<and> num_run_levels
        (run_level_tracker (OnBeginNestedRunLoop spec_deduplicator controller_three_tasks)) = 2
   \<and> length (tasks_run [Some (10::nat)]) \<le> 1
   \<and> posted (OnBeginNestedRunLoop spec_deduplicator controller_three_tasks)
       = [PostTask kImmediate]"
proof -
  have frame: "\<forall>task s1 s2. quiet_task task s1 = Some s2 \<longrightarrow>
           work_batch_size s2 = work_batch_size s1"
    "\<forall>task s1 s2. quiet_task task s1 = Some s2 \<longrightarrow>
           num_run_levels (run_level_tracker s2) = num_run_levels (run_level_tracker s1)"
    by (simp_all add: quiet_task_def)
  obtain r where a: "DoWork spec_deduplicator list_source quiet_task 0 kImmediate
      controller_three_tasks = Inr ([Some 10, Some 11], r)"
    by (simp add: controller_three_tasks_def controller_code)
  obtain r' where b: "DoWork spec_deduplicator list_source quiet_task 0 kImmediate
      (OnBeginNestedRunLoop spec_deduplicator controller_three_tasks) = Inr ([Some 10], r')"
    by (simp add: controller_three_tasks_def controller_code)
  have c: "sint (work_batch_size controller_three_tasks) = 2"
    "posted controller_three_tasks = []"
    "num_run_levels (run_level_tracker controller_three_tasks) = 1"
    by (simp_all add: controller_three_tasks_def num_run_levels_def)
  from DoWork_runs_one_batch[OF a,
         where D' = spec_deduplicator and s' = controller_three_tasks]
       DoWork_runs_one_batch[OF b,
         where D' = spec_deduplicator and s' = controller_three_tasks]
  show ?thesis using a b c frame by auto
qed

text \<open>
  C9. \<open>SetNextDelayedDoWork\<close> with the run time that is recorded in
  \<open>next_delayed_do_work\<close> returns at once: whatever the deduplicator would answer, the
  controller is left as it was, so nothing is posted and neither the deduplicator nor
  \<open>next_delayed_do_work\<close> nor the cancelable closure changes.
\<close>

theorem SetNextDelayedDoWork_same_run_time:
  assumes "tc_sequence s \<noteq> None" "run_time = next_delayed_do_work s"
  shows "SetNextDelayedDoWork D lazy_now run_time s = Inr s"
  using assms by (simp add: SetNextDelayedDoWork_def)

theorem SetNextDelayedDoWork_same_run_time_witness:
  "tc_sequence controller_three_tasks \<noteq> None
   \<and> next_delayed_do_work controller_three_tasks = 50
   \<and> SetNextDelayedDoWork spec_deduplicator 7 50 controller_three_tasks
       = Inr controller_three_tasks
   \<and> (\<exists>s'. SetNextDelayedDoWork spec_deduplicator 7 60 controller_three_tasks = Inr s'
         \<and> posted s' = [PostDelayedTask 0 53] \<and> next_delayed_do_work s' = 60)"
proof -
  have h: "tc_sequence controller_three_tasks \<noteq> None"
    "50 = next_delayed_do_work controller_three_tasks"
    by (simp_all add: controller_three_tasks_def)
  have other: "\<exists>s'. SetNextDelayedDoWork spec_deduplicator 7 60 controller_three_tasks = Inr s'
         \<and> posted s' = [PostDelayedTask 0 53] \<and> next_delayed_do_work s' = 60"
    by (simp add: controller_three_tasks_def controller_code)
  from SetNextDelayedDoWork_same_run_time[OF h, of spec_deduplicator 7] h other
  show ?thesis by simp
qed

end
